theory Spec2Isabelle
  imports Main
begin

section \<open>Characters, memory and the C library\<close>

text \<open>
  Pointers are integer addresses into one flat byte memory; \<open>0\<close> is \<open>NULL\<close>.
  A read is total, as it is in C on a flat address space: a read outside the
  text a caller meant returns whatever byte the memory holds there.
\<close>

type_synonym addr = int
type_synonym memory = "addr \<Rightarrow> char"

definition NUL :: char where "NUL = CHR 0x00"
definition TAB :: char where "TAB = CHR 0x09"
definition LF :: char where "LF = CHR 0x0A"
definition CR :: char where "CR = CHR 0x0D"

text \<open>The \<open>ctype.h\<close> classes of the C locale.\<close>

definition isspace :: "char \<Rightarrow> bool" where
  "isspace c = (let n = (of_char c :: nat) in n = 32 \<or> (9 \<le> n \<and> n \<le> 13))"

definition isalnum :: "char \<Rightarrow> bool" where
  "isalnum c = (let n = (of_char c :: nat) in
     (48 \<le> n \<and> n \<le> 57) \<or> (65 \<le> n \<and> n \<le> 90) \<or> (97 \<le> n \<and> n \<le> 122))"

definition ispunct :: "char \<Rightarrow> bool" where
  "ispunct c = (let n = (of_char c :: nat) in
     (33 \<le> n \<and> n \<le> 47) \<or> (58 \<le> n \<and> n \<le> 64) \<or> (91 \<le> n \<and> n \<le> 96)
     \<or> (123 \<le> n \<and> n \<le> 126))"

definition tolower :: "char \<Rightarrow> char" where
  "tolower c = (let n = (of_char c :: nat) in
     if 65 \<le> n \<and> n \<le> 90 then char_of (n + 32) else c)"

text \<open>The \<open>n\<close> bytes of memory from address \<open>p\<close> on.\<close>

fun bytes_at :: "memory \<Rightarrow> addr \<Rightarrow> nat \<Rightarrow> string" where
  "bytes_at m p 0 = []"
| "bytes_at m p (Suc n) = m p # bytes_at m (p + 1) n"

text \<open>The bytes of the range \<open>[s, e)\<close>; none when \<open>e \<le> s\<close>.\<close>

definition range_text :: "memory \<Rightarrow> addr \<Rightarrow> addr \<Rightarrow> string" where
  "range_text m s e = bytes_at m s (nat (e - s))"

text \<open>
  \<open>strncmp(p, lit, length lit) == 0\<close> for a literal without a NUL byte: the
  bytes at \<open>p\<close> spell the literal.
\<close>

definition strncmp_eq :: "memory \<Rightarrow> addr \<Rightarrow> string \<Rightarrow> bool" where
  "strncmp_eq m p lit = (bytes_at m p (length lit) = lit)"

text \<open>\<open>strncasecmp(p, lit, length lit) == 0\<close> for a lower-case literal.\<close>

definition strncasecmp_eq :: "memory \<Rightarrow> addr \<Rightarrow> string \<Rightarrow> bool" where
  "strncasecmp_eq m p lit = (map tolower (bytes_at m p (length lit)) = lit)"

text \<open>A memory that holds the text \<open>s\<close> from address \<open>base\<close> on and NUL elsewhere.\<close>

definition mem_of :: "addr \<Rightarrow> string \<Rightarrow> memory" where
  "mem_of base s = (\<lambda>a. if base \<le> a \<and> a < base + int (length s) then s ! nat (a - base) else NUL)"

section \<open>stringutils.c\<close>

function skipSpace :: "memory \<Rightarrow> addr \<Rightarrow> addr \<Rightarrow> addr" where
  "skipSpace m p e = (if p < e \<and> isspace (m p) then skipSpace m (p + 1) e else p)"
  by pat_completeness auto
termination
  by (relation "measure (\<lambda>(m, p, e). nat (e - p))") auto

declare skipSpace.simps [simp del]

text \<open>
  \<open>trimSpace\<close> starts at \<open>ptr - 1\<close> and returns \<open>p + 1\<close>; the loop below carries
  \<open>p\<close> itself.
\<close>

function trimSpace_loop :: "memory \<Rightarrow> addr \<Rightarrow> addr \<Rightarrow> addr" where
  "trimSpace_loop m p start =
     (if p > start \<and> isspace (m p) then trimSpace_loop m (p - 1) start else p)"
  by pat_completeness auto
termination
  by (relation "measure (\<lambda>(m, p, start). nat (p - start))") auto

declare trimSpace_loop.simps [simp del]

definition trimSpace :: "memory \<Rightarrow> addr \<Rightarrow> addr \<Rightarrow> addr" where
  "trimSpace m ptr start = trimSpace_loop m (ptr - 1) start + 1"

definition is_comment_char :: "char \<Rightarrow> bool" where
  "is_comment_char c = (isspace c \<or> c = CHR ''/'' \<or> c = CHR ''*'')"

function skipComment :: "memory \<Rightarrow> addr \<Rightarrow> addr \<Rightarrow> addr" where
  "skipComment m p e = (if p < e \<and> is_comment_char (m p) then skipComment m (p + 1) e else p)"
  by pat_completeness auto
termination
  by (relation "measure (\<lambda>(m, p, e). nat (e - p))") auto

declare skipComment.simps [simp del]

function trimComment_loop :: "memory \<Rightarrow> addr \<Rightarrow> addr \<Rightarrow> addr" where
  "trimComment_loop m p start =
     (if p > start \<and> is_comment_char (m p) then trimComment_loop m (p - 1) start else p)"
  by pat_completeness auto
termination
  by (relation "measure (\<lambda>(m, p, start). nat (p - start))") auto

declare trimComment_loop.simps [simp del]

definition trimComment :: "memory \<Rightarrow> addr \<Rightarrow> addr \<Rightarrow> addr" where
  "trimComment m ptr start = trimComment_loop m (ptr - 1) start + 1"

function skipPunct :: "memory \<Rightarrow> addr \<Rightarrow> addr \<Rightarrow> addr" where
  "skipPunct m p e =
     (if p < e \<and> (isspace (m p) \<or> ispunct (m p)) then skipPunct m (p + 1) e else p)"
  by pat_completeness auto
termination
  by (relation "measure (\<lambda>(m, p, e). nat (e - p))") auto

declare skipPunct.simps [simp del]

subsection \<open>The string list on the heap\<close>

text \<open>
  A heap cell is a \<open>tStringList\<close> element (its \<open>next\<close> and \<open>string\<close> pointers) or
  the bytes of a string. \<open>malloc\<close> is the environment's: its two results are
  parameters of \<open>addString\<close>, \<open>0\<close> for a failed allocation. A fresh element's
  fields hold junk until they are assigned. \<open>len\<close> is a \<open>size_t\<close>: for
  \<open>end < start\<close> the difference wraps around.
\<close>

datatype cell = Element (nxt: addr) (str: addr) | Chars string

type_synonym heap = "addr \<Rightarrow> cell option"

definition size_t :: "int \<Rightarrow> int" where
  "size_t n = n mod 2 ^ 64"

text \<open>
  No allocator returns an object of more than \<open>PTRDIFF_MAX\<close> bytes: such a
  request fails whatever the environment would answer.
\<close>

definition PTRDIFF_MAX :: int where
  "PTRDIFF_MAX = 2 ^ 63 - 1"

definition malloc_sized :: "int \<Rightarrow> addr \<Rightarrow> addr" where
  "malloc_sized n answer = (if n > PTRDIFF_MAX then 0 else answer)"

text \<open>
  \<open>memcpy(element->string, start, len)\<close> followed by \<open>element->string[len] = 0\<close>
  stays inside the block of \<open>size_t (len + 1)\<close> bytes exactly when \<open>len + 1\<close> did
  not wrap. When it wrapped (\<open>end = start - 1\<close>, a block of no bytes) the copy
  of \<open>SIZE_MAX\<close> bytes runs out of every mapped region: a memory fault.
\<close>

datatype fault = Fault

definition copy_fits :: "int \<Rightarrow> bool" where
  "copy_fits len = (len + 1 \<le> size_t (len + 1))"

definition addString ::
  "heap \<Rightarrow> addr \<Rightarrow> addr \<Rightarrow> addr \<Rightarrow> addr \<Rightarrow> memory \<Rightarrow> addr \<Rightarrow> addr \<Rightarrow> fault + heap \<times> addr" where
  "addString h malloc1 malloc2 junk sl m s e =
     (let element = malloc1 in
      if element \<noteq> 0 then
        (let h1 = h(element \<mapsto> Element junk junk);
             len = size_t (e - s);
             string = malloc_sized (size_t (len + 1)) malloc2;
             h2 = h1(element \<mapsto> Element junk string) in
         if string \<noteq> 0 then
           (if copy_fits len then
              (let h3 = h2(string \<mapsto> Chars (bytes_at m s (nat len) @ [NUL]));
                   h4 = h3(element \<mapsto> Element sl string) in
               Inr (h4, element))
            else Inl Fault)
         else Inr (h2, sl))
      else Inr (h, sl))"

subsection \<open>The string list as the parser uses it\<close>

text \<open>
  The parser only ever prepends to a list, prints it and frees it, so its lists
  are carried as lists of strings. \<open>c_string\<close> is what \<open>addString\<close> copies from
  the range \<open>[s, e)\<close>, read back as a C string (up to the first NUL). The
  environment's allocation outcomes are a list of flags, one per \<open>malloc\<close>
  call, an exhausted list meaning success; a request of more than
  \<open>PTRDIFF_MAX\<close> bytes fails whatever the flag. \<open>addStringL\<close> has the branches of
  \<open>addString\<close>: the element allocation, the string allocation of
  \<open>size_t (len + 1)\<close> bytes, and the copy, which faults when it does not fit.
\<close>

definition c_string :: "memory \<Rightarrow> addr \<Rightarrow> addr \<Rightarrow> string" where
  "c_string m s e = takeWhile (\<lambda>c. c \<noteq> NUL) (bytes_at m s (nat (size_t (e - s))))"

definition malloc :: "bool list \<Rightarrow> bool \<times> bool list" where
  "malloc oks = (case oks of [] \<Rightarrow> (True, []) | ok # rest \<Rightarrow> (ok, rest))"

definition malloc_bytes :: "int \<Rightarrow> bool list \<Rightarrow> bool \<times> bool list" where
  "malloc_bytes n oks =
     (case malloc oks of (ok, rest) \<Rightarrow> (if n > PTRDIFF_MAX then (False, rest) else (ok, rest)))"

definition addStringL ::
  "bool list \<Rightarrow> string list \<Rightarrow> memory \<Rightarrow> addr \<Rightarrow> addr \<Rightarrow> fault + bool list \<times> string list" where
  "addStringL oks sl m s e =
     (case malloc oks of
        (element_ok, oks1) \<Rightarrow>
          if element_ok then
            (let len = size_t (e - s) in
             case malloc_bytes (size_t (len + 1)) oks1 of
               (string_ok, oks2) \<Rightarrow>
                 if string_ok then
                   (if copy_fits len then Inr (oks2, c_string m s e # sl) else Inl Fault)
                 else Inr (oks2, sl))
          else Inr (oks1, sl))"

text \<open>\<open>dumpStringList\<close>: one line per element, each after the prefix.\<close>

fun dumpStringList :: "string list \<Rightarrow> string \<Rightarrow> string" where
  "dumpStringList [] prefix = []"
| "dumpStringList (x # xs) prefix = [LF] @ prefix @ x @ dumpStringList xs prefix"

section \<open>The accumulation buffer\<close>

text \<open>
  \<open>tRange\<close> and \<open>tBuffer\<close> with the fields the parser uses. The record also
  carries what the C code reaches through the buffer or the process: the memory
  the pointers point into, the text written to \<open>buf->file\<close> so far, the
  allocation outcomes still to come, whether the process has ended
  (\<open>exited\<close>: by \<open>exit\<close> or by a memory fault) and whether it ended by a
  memory fault (\<open>faulted\<close>). Counts are natural numbers (the C \<open>int\<close> would need 2^31 captures
  to wrap).
\<close>

record tRange =
  start :: addr
  end' :: addr
  count :: nat

record tBuffer =
  mem :: memory
  data :: addr
  capacity :: int
  ptr :: addr
  file' :: string
  function' :: tRange
  arglist :: tRange
  body :: tRange
  description :: tRange
  fileComment :: bool
  todos :: "string list"
  notes' :: "string list"
  retvals :: "string list"
  commentStart :: addr
  statementStart :: addr
  heap_ok :: "bool list"
  exited :: bool
  faulted :: bool

text \<open>
  \<open>gOptions\<close>. \<open>boilerplate\<close> is the content of the file the option names:
  \<open>None\<close> when no file was given, \<open>Some None\<close> when it cannot be opened.
\<close>

record tAppOptions =
  filename :: "string option"
  boilerplate :: "string option option"
  onlyPrototypes :: bool

definition no_range :: tRange where
  "no_range = \<lparr>start = 0, end' = 0, count = 0\<rparr>"

text \<open>\<open>fprintf(buf->file, ...)\<close>: nothing is written once the process has ended.\<close>

definition fprintf :: "tBuffer \<Rightarrow> string \<Rightarrow> tBuffer" where
  "fprintf buf s = (if exited buf then buf else buf\<lparr>file' := file' buf @ s\<rparr>)"

text \<open>
  Modelled from the spec: \<open>dumpBlock\<close>, \<open>emitChar\<close>, \<open>clearBuffer\<close> and
  \<open>initBuffer\<close> of bufferutils.c, which is not among the sources. The spec
  gives them as "verbatim-range emission to the output stream",
  "append-one-character with an overflow signal", and "full reset-to-empty"
  (all ranges, counts and mined lists cleared, the text storage rewound to
  empty). \<open>dumpBlock\<close> writes the bytes of \<open>[s, e)\<close>, none when \<open>e \<le> s\<close>;
  \<open>emitChar\<close> stores the character and signals when the storage is then full.
\<close>

definition dumpBlock :: "tBuffer \<Rightarrow> addr \<Rightarrow> addr \<Rightarrow> tBuffer" where
  "dumpBlock buf s e = fprintf buf (range_text (mem buf) s e)"

definition emitChar :: "tBuffer \<Rightarrow> char \<Rightarrow> tBuffer \<times> bool" where
  "emitChar buf c =
     (let buf' = buf\<lparr>mem := (mem buf)(ptr buf := c), ptr := ptr buf + 1\<rparr>
      in (buf', ptr buf' - data buf' \<ge> capacity buf'))"

definition clearBuffer :: "tBuffer \<Rightarrow> tBuffer" where
  "clearBuffer buf =
     buf\<lparr>ptr := data buf, function' := no_range, arglist := no_range, body := no_range,
         description := no_range, todos := [], notes' := [], retvals := []\<rparr>"

definition initBuffer :: "memory \<Rightarrow> addr \<Rightarrow> int \<Rightarrow> bool list \<Rightarrow> tBuffer" where
  "initBuffer m base cap oks =
     \<lparr>mem = m, data = base, capacity = cap, ptr = base, file' = [],
      function' = no_range, arglist = no_range, body = no_range, description = no_range,
      fileComment = False, todos = [], notes' = [], retvals = [],
      commentStart = 0, statementStart = 0, heap_ok = oks, exited = False,
      faulted = False\<rparr>"

section \<open>parser.c: mining\<close>

text \<open>
  The three calls of \<open>addString\<close>, on \<open>buf->todos\<close>, \<open>buf->notes\<close> and
  \<open>buf->retvals\<close>. A memory fault in \<open>addString\<close> ends the process.
\<close>

definition add_todo :: "tBuffer \<Rightarrow> addr \<Rightarrow> addr \<Rightarrow> tBuffer" where
  "add_todo buf s e =
     (case addStringL (heap_ok buf) (todos buf) (mem buf) s e of
        Inl Fault \<Rightarrow> buf\<lparr>exited := True, faulted := True\<rparr>
      | Inr (oks, sl) \<Rightarrow> buf\<lparr>heap_ok := oks, todos := sl\<rparr>)"

definition add_note :: "tBuffer \<Rightarrow> addr \<Rightarrow> addr \<Rightarrow> tBuffer" where
  "add_note buf s e =
     (case addStringL (heap_ok buf) (notes' buf) (mem buf) s e of
        Inl Fault \<Rightarrow> buf\<lparr>exited := True, faulted := True\<rparr>
      | Inr (oks, sl) \<Rightarrow> buf\<lparr>heap_ok := oks, notes' := sl\<rparr>)"

definition add_retval :: "tBuffer \<Rightarrow> addr \<Rightarrow> addr \<Rightarrow> tBuffer" where
  "add_retval buf s e =
     (case addStringL (heap_ok buf) (retvals buf) (mem buf) s e of
        Inl Fault \<Rightarrow> buf\<lparr>exited := True, faulted := True\<rparr>
      | Inr (oks, sl) \<Rightarrow> buf\<lparr>heap_ok := oks, retvals := sl\<rparr>)"

definition parseComment :: "tBuffer \<Rightarrow> tBuffer" where
  "parseComment buf =
     (if commentStart buf \<noteq> 0 then
        (let m = mem buf;
             p = skipPunct m (commentStart buf) (ptr buf);
             buf1 =
               (if strncasecmp_eq m p ''todo'' then
                  add_todo buf (skipPunct m (p + 4) (ptr buf)) (trimComment m (ptr buf) (p + 4))
                else if strncasecmp_eq m p ''fixme'' then
                  add_todo buf (skipPunct m (p + 5) (ptr buf)) (trimComment m (ptr buf) (p + 5))
                else if strncasecmp_eq m p ''fix-me'' then
                  add_todo buf (skipPunct m (p + 6) (ptr buf)) (trimComment m (ptr buf) (p + 6))
                else if strncasecmp_eq m p ''note'' then
                  add_note buf (skipPunct m (p + 4) (ptr buf)) (trimComment m (ptr buf) (p + 4))
                else if strncasecmp_eq m p ''nb'' then
                  add_note buf (skipPunct m (p + 2) (ptr buf)) (trimComment m (ptr buf) (p + 2))
                else buf)
         in buf1\<lparr>commentStart := 0\<rparr>)
      else buf)"

text \<open>The loop of \<open>parseStatement\<close> that counts the opening parentheses in \<open>[p, e)\<close>.\<close>

function count_open :: "memory \<Rightarrow> addr \<Rightarrow> addr \<Rightarrow> int \<Rightarrow> int" where
  "count_open m p e n =
     (if p < e then count_open m (p + 1) e (if m p = CHR ''('' then n + 1 else n) else n)"
  by pat_completeness auto
termination
  by (relation "measure (\<lambda>(m, p, e, n). nat (e - p))") auto

declare count_open.simps [simp del]

definition parseStatement :: "tBuffer \<Rightarrow> tBuffer" where
  "parseStatement buf =
     (let s0 = statementStart buf; m = mem buf in
      if s0 \<noteq> 0 then
        (let buf1 =
           (if strncmp_eq m s0 ''return'' then
              (let s = skipSpace m (s0 + 6) (ptr buf);
                   e = trimSpace m (ptr buf) s in
               if m s = CHR ''('' \<and> count_open m s e 0 = 1 \<and> m (e - 1) = CHR '')'' then
                 (let s' = skipSpace m (s + 1) e;
                      e' = trimSpace m (e - 1) s'
                  in add_retval buf s' e')
               else add_retval buf s e)
            else buf)
         in buf1\<lparr>statementStart := 0\<rparr>)
      else buf)"

section \<open>parser.c: the type classifier\<close>

text \<open>The \<open>do ... while\<close> of \<open>processTyped\<close> that walks back to the opening bracket.\<close>

function find_bracket :: "memory \<Rightarrow> addr \<Rightarrow> addr \<Rightarrow> addr" where
  "find_bracket m e s =
     (let e1 = e - 1 in if e1 \<ge> s \<and> m e1 \<noteq> CHR ''['' then find_bracket m e1 s else e1)"
  by pat_completeness auto
termination
  by (relation "measure (\<lambda>(m, e, s). nat (e - s + 1))") auto

declare find_bracket.simps [simp del]

text \<open>The loop that walks back over the identifier.\<close>

function scan_name :: "memory \<Rightarrow> addr \<Rightarrow> addr \<Rightarrow> addr" where
  "scan_name m p s =
     (if p \<ge> s \<and> (isalnum (m p) \<or> m p = CHR ''_'') then scan_name m (p - 1) s else p)"
  by pat_completeness auto
termination
  by (relation "measure (\<lambda>(m, p, s). nat (p - s + 1))") auto

declare scan_name.simps [simp del]

text \<open>
  The loop that strips \<open>static\<close> and \<open>const\<close>. It compares the bytes at \<open>s\<close>
  without looking at \<open>e\<close>, and ends only at bytes that spell neither keyword:
  it is partial, \<open>None\<close> standing for a loop that never ends.
\<close>

partial_function (option) strip_keywords ::
  "memory \<Rightarrow> addr \<Rightarrow> addr \<Rightarrow> bool \<Rightarrow> bool \<Rightarrow> (addr \<times> bool \<times> bool) option" where
  "strip_keywords m s e isStatic isConst =
     (if strncmp_eq m s ''static'' then strip_keywords m (skipSpace m (s + 6) e) e True isConst
      else if strncmp_eq m s ''const'' then strip_keywords m (skipSpace m (s + 5) e) e isStatic True
      else Some (s, isStatic, isConst))"

declare strip_keywords.simps [code]

text \<open>The loop that counts and strips the trailing stars; it returns \<open>e\<close> and \<open>ptrCount\<close>.\<close>

function back_space :: "memory \<Rightarrow> addr \<Rightarrow> addr \<Rightarrow> addr" where
  "back_space m e s = (if e > s \<and> isspace (m e) then back_space m (e - 1) s else e)"
  by pat_completeness auto
termination
  by (relation "measure (\<lambda>(m, e, s). nat (e - s))") auto

declare back_space.simps [simp del]

lemma back_space_le: "back_space m e s \<le> e"
  by (induction m e s rule: back_space.induct) (subst back_space.simps, auto)

function count_stars :: "memory \<Rightarrow> addr \<Rightarrow> addr \<Rightarrow> int \<Rightarrow> addr \<times> int" where
  "count_stars m e s n =
     (if e > s \<and> m e = CHR ''*'' then count_stars m (back_space m (e - 1) s) s (n + 1)
      else (e, n))"
  by pat_completeness auto
termination
proof (relation "measure (\<lambda>(m, e, s, n). nat (e - s))")
  show "wf (measure (\<lambda>(m, e, s, n). nat (e - s)))" by simp
next
  fix m :: memory and e s n :: int
  assume "s < e \<and> m e = CHR ''*''"
  moreover have "back_space m (e - 1) s \<le> e - 1" by (rule back_space_le)
  ultimately show "((m, back_space m (e - 1) s, s, n + 1), (m, e, s, n))
      \<in> measure (\<lambda>(m, e, s, n). nat (e - s))"
    by simp
qed

declare count_stars.simps [simp del]

text \<open>
  \<open>strncat(type, src, n)\<close> appends at most \<open>n\<close> characters of the C string
  \<open>src\<close> and then a NUL; the model keeps the characters of \<open>type\<close> before its
  NUL. \<open>strncat_lit\<close> is the appended part for a literal, \<open>strncat_mem\<close> for a
  string in memory.
\<close>

definition strncat_lit :: "string \<Rightarrow> int \<Rightarrow> string" where
  "strncat_lit lit n = take (nat n) lit"

function strncat_mem :: "memory \<Rightarrow> addr \<Rightarrow> int \<Rightarrow> string" where
  "strncat_mem m s n = (if n \<le> 0 \<or> m s = NUL then [] else m s # strncat_mem m (s + 1) (n - 1))"
  by pat_completeness auto
termination
  by (relation "measure (\<lambda>(m, s, n). nat n)") auto

declare strncat_mem.simps [simp del]

text \<open>\<open>while (ptrCount--)\<close>: one phrase per pointer level; \<open>remaining\<close> is a \<open>size_t\<close>.\<close>

fun cat_pointers :: "nat \<Rightarrow> string \<Rightarrow> int \<Rightarrow> string \<times> int" where
  "cat_pointers 0 ty remaining = (ty, remaining)"
| "cat_pointers (Suc n) ty remaining =
     cat_pointers n (ty @ strncat_lit ''a pointer to '' remaining) (size_t (remaining - 13))"

text \<open>
  What \<open>processTyped\<close> leaves behind: the text in the \<open>type\<close> buffer, the two
  out-parameters, the narrowed \<open>name\<close> range, and the three locals the
  direction guess is computed from. \<open>type\<close> is never \<open>NULL\<close> at a call site.
  With \<open>size = 0\<close> the out-parameters keep the values they had. The model takes
  \<open>qTypePrefixedWithA\<close> (common.h, not among the sources) as undefined.
\<close>

record tTyped =
  type_text :: string
  isStatic :: bool
  inOnly :: bool
  name_start :: addr
  name_end :: addr
  isArray :: bool
  isConst :: bool
  ptrCount :: int

definition processTyped ::
  "memory \<Rightarrow> string \<Rightarrow> int \<Rightarrow> bool \<Rightarrow> bool \<Rightarrow> addr \<Rightarrow> addr \<Rightarrow> tTyped option" where
  "processTyped m type0 size' isStatic0 inOnly0 nstart nend =
     (let s = skipSpace m nstart nend;
          e = trimSpace m nend nstart;
          e1 = e - 1;
          is_array = (m e1 = CHR '']'');
          e2 = (if is_array
                then (let e' = find_bracket m e1 s in if e' > s then e' - 1 else e')
                else e1);
          e3 = e2 + 1;
          p = scan_name m e2 s + 1
      in if size' > 0 then
           (case strip_keywords m s e3 False False of
              None \<Rightarrow> None
            | Some (s1, is_static, is_const) \<Rightarrow>
                (case count_stars m (trimSpace m p s1 - 1) s1 0 of
                   (e4, ptr_count) \<Rightarrow>
                     (let e5 = e4 + 1;
                          in_only = (is_const \<or> (ptr_count = 0 \<and> \<not> is_array));
                          (ty1, r1) = cat_pointers (nat ptr_count) [] size';
                          (ty2, r2) = (if is_array
                                       then (ty1 @ strncat_lit ''an array of '' r1, size_t (r1 - 12))
                                       else (ty1, r1));
                          (ty3, r3) = (if is_const
                                       then (ty2 @ strncat_lit ''const '' r2, size_t (r2 - 6))
                                       else (ty2, r2));
                          r4 = (if size_t (e5 - s1) < r3 then size_t (e5 - s1) else r3)
                      in Some \<lparr>type_text = ty3 @ strncat_mem m s1 r4, isStatic = is_static,
                                inOnly = in_only, name_start = p, name_end = e3,
                                isArray = is_array, isConst = is_const, ptrCount = ptr_count\<rparr>)))
         else Some \<lparr>type_text = type0, isStatic = isStatic0, inOnly = inOnly0,
                     name_start = p, name_end = e3,
                     isArray = is_array, isConst = False, ptrCount = 0\<rparr>)"

section \<open>parser.c: rendering\<close>

text \<open>
  \<open>processBoilerplate\<close>: the 32768-byte scratch allocation may fail (a message
  on the error stream, which the model leaves out); a file that cannot be
  opened ends the process with \<open>exit(1)\<close>; otherwise the file is copied.
\<close>

definition processBoilerplate :: "tAppOptions \<Rightarrow> tBuffer \<Rightarrow> tBuffer" where
  "processBoilerplate opts buf =
     (case boilerplate opts of
        None \<Rightarrow> buf
      | Some content \<Rightarrow>
          (case malloc (heap_ok buf) of
             (tmp_ok, oks) \<Rightarrow>
               (let buf1 = buf\<lparr>heap_ok := oks\<rparr> in
                if \<not> tmp_ok then buf1
                else (case content of
                        None \<Rightarrow> buf1\<lparr>exited := True\<rparr>
                      | Some text \<Rightarrow> fprintf buf1 text))))"

definition newFileComment :: "tAppOptions \<Rightarrow> tBuffer \<Rightarrow> tBuffer" where
  "newFileComment opts buf =
     (let buf1 = fprintf buf (''/**'' @ [LF, TAB] @ ''@file ''
                   @ (case filename opts of Some f \<Rightarrow> f | None \<Rightarrow> ''<unknown>''));
          buf2 = fprintf buf1 ([LF, LF, TAB] @ ''Put a description of the file here.'' @ [LF]);
          buf3 = processBoilerplate opts buf2;
          buf4 = fprintf buf3
                   ([LF, TAB] @ ''@todo Edit file comment (automatically generated by insertdox)'')
      in fprintf buf4 ([LF] @ ''*/'' @ [LF] @ ''/* $Header$ */'' @ [LF, LF]))"

definition processFileComment :: "tAppOptions \<Rightarrow> tBuffer \<Rightarrow> tBuffer" where
  "processFileComment opts buf =
     (let s = skipComment (mem buf) (data buf) (ptr buf);
          e = trimComment (mem buf) (ptr buf) s;
          buf1 = fprintf buf (''/**'' @ [LF, TAB]);
          buf2 = dumpBlock buf1 s e;
          buf3 = fprintf buf2 [LF];
          buf4 = processBoilerplate opts buf3
      in fprintf buf4 ([LF] @ ''*/'' @ [LF]))"

text \<open>
  The loop of \<open>processArgList\<close> over \<open>[p, e)\<close>; \<open>s\<close> is the start of the
  current declarator. The \<open>type\<close> buffer has 200 bytes.
\<close>

definition emit_param :: "tBuffer \<Rightarrow> tTyped \<Rightarrow> tBuffer" where
  "emit_param buf r =
     (let buf1 = fprintf buf ([LF, TAB] @ ''@param[in'' @ (if inOnly r then [] else '',out'')
                   @ ''] '' @ [TAB]);
          buf2 = dumpBlock buf1 (name_start r) (name_end r)
      in fprintf buf2 ('' '' @ [TAB] @ type_text r))"

definition is_void_name :: "memory \<Rightarrow> tTyped \<Rightarrow> bool" where
  "is_void_name m r = (name_end r - name_start r = 4 \<and> strncmp_eq m (name_start r) ''void'')"

function arg_loop ::
  "tBuffer \<Rightarrow> addr \<Rightarrow> addr \<Rightarrow> addr \<Rightarrow> bool \<Rightarrow> (tBuffer \<times> bool) option" where
  "arg_loop buf s p e said =
     (if p < e then
        (if mem buf p = CHR '','' \<or> mem buf p = CHR '')'' then
           (case processTyped (mem buf) [] 200 False False s p of
              None \<Rightarrow> None
            | Some r \<Rightarrow>
                (if is_void_name (mem buf) r then arg_loop buf (p + 1) (p + 1) e said
                 else arg_loop (emit_param buf r) (p + 1) (p + 1) e True))
         else arg_loop buf s (p + 1) e said)
      else Some (buf, said))"
  by pat_completeness auto
termination
  by (relation "measure (\<lambda>(buf, s, p, e, said). nat (e - p))") auto

declare arg_loop.simps [simp del]

text \<open>The first loop of \<open>processArgList\<close>: skip white space and opening parentheses.\<close>

function skip_open :: "memory \<Rightarrow> addr \<Rightarrow> addr \<Rightarrow> addr" where
  "skip_open m s e =
     (if s < e \<and> (isspace (m s) \<or> m s = CHR ''('') then skip_open m (s + 1) e else s)"
  by pat_completeness auto
termination
  by (relation "measure (\<lambda>(m, s, e). nat (e - s))") auto

declare skip_open.simps [simp del]

definition processArgList :: "tBuffer \<Rightarrow> tBuffer option" where
  "processArgList buf =
     (let s = skip_open (mem buf) (start (arglist buf)) (end' (arglist buf)) in
      case arg_loop buf s s (end' (arglist buf)) False of
        None \<Rightarrow> None
      | Some (buf1, saidSomething) \<Rightarrow>
          Some (if saidSomething then fprintf buf1 [LF] else buf1))"

definition processDescription :: "tBuffer \<Rightarrow> tBuffer" where
  "processDescription buf =
     (let buf1 =
        (if count (description buf) > 0 then
           (let s = skipComment (mem buf) (start (description buf)) (end' (description buf));
                e = trimComment (mem buf) (end' (description buf)) s
            in if s = e then buf\<lparr>description := (description buf)\<lparr>count := 0\<rparr>\<rparr>
               else dumpBlock buf s e)
         else buf);
          buf2 =
        (if count (description buf1) = 0 then
           fprintf (fprintf buf1 ''Brief description needed.'')
             ([LF, LF, TAB] @ ''Followed by a more complete description.'')
         else buf1)
      in fprintf buf2 [LF])"

text \<open>
  \<open>processFunction\<close>, in three consecutive parts: the statements up to and
  including the call of \<open>processArgList\<close> (with the classified declarator);
  those from the test of the return type to the comment's closer; and the final
  \<open>if\<close> on prototype-only mode.
\<close>

definition function_preamble :: "tBuffer \<Rightarrow> (tTyped \<times> tBuffer) option" where
  "function_preamble buf =
     (let buf1 =
        (if count (description buf) = 0 then
           buf\<lparr>description := (description buf)
                  \<lparr>start := start (function' buf) - 1, end' := start (function' buf) - 1\<rparr>\<rparr>
         else buf);
          buf2 = dumpBlock buf1 (data buf1) (start (description buf1))
      in case processTyped (mem buf2) [] 200 False False
                (start (function' buf2)) (end' (function' buf2)) of
           None \<Rightarrow> None
         | Some r \<Rightarrow>
             (let buf3 = fprintf buf2 ([LF] @ ''/**'' @ [LF]
                           @ (if isStatic r then [TAB] @ ''@internal'' @ [LF, LF] else [])
                           @ [TAB]);
                  buf4 = processDescription buf3
              in case processArgList buf4 of
                   None \<Rightarrow> None
                 | Some buf5 \<Rightarrow> Some (r, buf5)))"

definition function_comment_end :: "tTyped \<Rightarrow> tBuffer \<Rightarrow> tBuffer" where
  "function_comment_end r buf5 =
     (let buf6 =
        (if type_text r \<noteq> ''void'' then
           fprintf
             (fprintf
                (fprintf buf5 ([LF, TAB] @ ''@return '' @ type_text r))
                (dumpStringList (retvals buf5) ([TAB] @ ''@retval '')))
             [LF]
         else buf5);
          buf7 = fprintf buf6 (dumpStringList (todos buf6) ([TAB] @ ''@todo ''))
      in fprintf buf7
           ([LF, TAB] @ ''@todo edit me (automatically generated by insertdox)''
            @ [LF] @ ''*/''))"

definition processFunction :: "tAppOptions \<Rightarrow> tBuffer \<Rightarrow> tBuffer option" where
  "processFunction opts buf =
     (case function_preamble buf of
        None \<Rightarrow> None
      | Some (r, buf5) \<Rightarrow>
          (let buf8 = function_comment_end r buf5 in
           Some (if onlyPrototypes opts then
                   fprintf (dumpBlock buf8 (end' (description buf8)) (end' (arglist buf8)))
                     ('';'' @ [LF, LF])
                 else dumpBlock buf8 (end' (description buf8)) (ptr buf8))))"

definition flushBuffer :: "tAppOptions \<Rightarrow> tBuffer \<Rightarrow> tBuffer option" where
  "flushBuffer opts buf =
     (if ptr buf > data buf then
        (if fileComment buf then Some (clearBuffer (processFileComment opts buf))
         else if count (function' buf) = 1 \<and> count (arglist buf) = 1 \<and> count (body buf) = 1 then
           (case processFunction opts buf of
              None \<Rightarrow> None
            | Some buf1 \<Rightarrow> Some (clearBuffer buf1))
         else if \<not> onlyPrototypes opts then Some (clearBuffer (dumpBlock buf (data buf) (ptr buf)))
         else Some (clearBuffer buf))
      else Some (clearBuffer buf))"

section \<open>parser.c: the state machine of processFile\<close>

text \<open>
  The locals of \<open>processFile\<close> together with the buffer. \<open>c\<close> is a byte of the
  input and \<open>nextc\<close> the byte after it, \<open>None\<close> for \<open>EOF\<close>. The two depth
  counters are unbounded integers (the C \<open>int\<close> would need 2^31 nested braces
  to wrap).
\<close>

record tState =
  buf :: tBuffer
  prevc :: char
  depthCurly :: int
  depthRound :: int
  inComment :: bool
  inCppComment :: bool
  inPreprocessor :: bool
  inSingleQuotes :: bool
  inDoubleQuotes :: bool
  inBetween :: bool
  isLiteral :: bool
  isChar1 :: bool
  atStart :: bool
  doFlush :: bool

definition set_end :: "tRange \<Rightarrow> addr \<Rightarrow> tRange" where
  "set_end r e = r\<lparr>end' := e, count := count r + 1\<rparr>"

text \<open>The branch \<open>if (isLiteral)\<close>.\<close>

definition literal_step :: "tState \<Rightarrow> char \<Rightarrow> char option \<Rightarrow> tState" where
  "literal_step st c nextc =
     (if \<not> (c = CR \<and> nextc = Some LF) \<and> \<not> (c = LF \<and> nextc = Some CR)
      then st\<lparr>isLiteral := False\<rparr> else st)"

text \<open>The branch \<open>else if (inComment)\<close>.\<close>

definition comment_step :: "tAppOptions \<Rightarrow> tState \<Rightarrow> char \<Rightarrow> tState option" where
  "comment_step opts st c =
     (let b = buf st in
      if inCppComment st then
        (if c = LF \<or> c = CR then
           (let st1 = st\<lparr>inCppComment := False, inComment := False, inPreprocessor := False,
                          isChar1 := True\<rparr> in
            if depthCurly st = 0 then
              (let b1 = b\<lparr>description := set_end (description b) (ptr b)\<rparr> in
               if fileComment b1 then
                 (case flushBuffer opts b1 of
                    None \<Rightarrow> None
                  | Some b2 \<Rightarrow> Some (st1\<lparr>buf := b2\<lparr>fileComment := False\<rparr>\<rparr>))
               else Some (st1\<lparr>buf := b1\<rparr>))
            else Some (st1\<lparr>buf := parseComment b\<rparr>))
         else Some st)
      else
        (if prevc st = CHR ''*'' \<and> c = CHR ''/'' then
           (let st1 = st\<lparr>inComment := False\<rparr> in
            if depthCurly st = 0 then
              (let b1 = b\<lparr>description := set_end (description b) (ptr b + 1)\<rparr> in
               Some (if fileComment b1 then st1\<lparr>buf := b1, doFlush := True\<rparr>
                     else st1\<lparr>buf := b1\<rparr>))
            else Some (st1\<lparr>buf := parseComment b\<rparr>))
         else Some st))"

text \<open>
  \<open>case '/'\<close> of the preprocessor branch and of the normal branch: the same
  statements in both places.
\<close>

definition slash_step :: "tAppOptions \<Rightarrow> tState \<Rightarrow> char option \<Rightarrow> tState option" where
  "slash_step opts st nextc =
     (let st1 = (if nextc = Some (CHR ''/'') then st\<lparr>inCppComment := True, inComment := True\<rparr>
                 else if nextc = Some (CHR ''*'') then st\<lparr>inComment := True\<rparr>
                 else st) in
      if inComment st1 then
        (if depthCurly st1 = 0 then
           (case flushBuffer opts (buf st1) of
              None \<Rightarrow> None
            | Some b1 \<Rightarrow>
                Some (st1\<lparr>buf := b1\<lparr>description := (description b1)\<lparr>start := ptr b1\<rparr>\<rparr>\<rparr>))
         else Some (st1\<lparr>buf := (buf st1)\<lparr>commentStart := ptr (buf st1)\<rparr>\<rparr>))
      else Some st1)"

text \<open>The branch \<open>else if (inPreprocessor)\<close>.\<close>

definition preprocessor_step ::
  "tAppOptions \<Rightarrow> tState \<Rightarrow> char \<Rightarrow> char option \<Rightarrow> tState option" where
  "preprocessor_step opts st c nextc =
     (if c = LF \<or> c = CR then
        (let st1 =
           (if inCppComment st then
              (let st0 = st\<lparr>inCppComment := False, inComment := False\<rparr>; b = buf st in
               if depthCurly st = 0
               then st0\<lparr>buf := b\<lparr>description := set_end (description b) (ptr b)\<rparr>\<rparr>
               else st0\<lparr>buf := parseComment b\<rparr>)
            else st);
             st2 = (if depthCurly st1 = 0 \<and> \<not> inComment st1 then st1\<lparr>doFlush := True\<rparr>
                    else st1)
         in Some (st2\<lparr>inPreprocessor := False, isChar1 := True\<rparr>))
      else if c = CHR ''/'' then slash_step opts st nextc
      else Some st)"

text \<open>The branches for the two kinds of quotes.\<close>

definition single_quote_step :: "tState \<Rightarrow> char \<Rightarrow> tState" where
  "single_quote_step st c =
     (if c = CHR 0x27 then st\<lparr>inSingleQuotes := False\<rparr>
      else if c = CHR 0x5C then st\<lparr>isLiteral := True\<rparr>
      else st)"

definition double_quote_step :: "tState \<Rightarrow> char \<Rightarrow> tState" where
  "double_quote_step st c =
     (if c = CHR 0x22 then st\<lparr>inDoubleQuotes := False\<rparr>
      else if c = CHR 0x5C then st\<lparr>isLiteral := True\<rparr>
      else st)"

text \<open>The final \<open>else\<close>: the \<open>switch\<close> over \<open>c\<close> outside comments, directives and quotes.\<close>

definition normal_step :: "tAppOptions \<Rightarrow> tState \<Rightarrow> char \<Rightarrow> char option \<Rightarrow> tState option" where
  "normal_step opts st c nextc =
     (let b = buf st in
      if c = CHR 0x5C then Some (st\<lparr>isLiteral := True\<rparr>)
      else if c = CHR ''/'' then slash_step opts st nextc
      else if c = CHR ''#'' then
        Some (if isChar1 st then
                (if depthCurly st = 0 then st\<lparr>buf := b\<lparr>description := no_range\<rparr>\<rparr> else st)
                  \<lparr>inPreprocessor := True\<rparr>
              else st)
      else if c = CHR 0x27 then Some (st\<lparr>inSingleQuotes := True\<rparr>)
      else if c = CHR 0x22 then Some (st\<lparr>inDoubleQuotes := True\<rparr>)
      else if c = CHR ''('' then
        Some ((if depthCurly st = 0 \<and> depthRound st = 0
               then st\<lparr>buf := b\<lparr>function' := set_end (function' b) (ptr b),
                                 arglist := (arglist b)\<lparr>start := ptr b\<rparr>\<rparr>\<rparr>
               else st)\<lparr>depthRound := depthRound st + 1\<rparr>)
      else if c = CHR '')'' then
        (let st1 = st\<lparr>depthRound := depthRound st - 1\<rparr> in
         Some (if depthCurly st1 = 0 \<and> depthRound st1 = 0
               then st1\<lparr>buf := b\<lparr>arglist := set_end (arglist b) (ptr b + 1)\<rparr>\<rparr>
               else st1))
      else if c = CHR ''{'' then
        Some ((if depthCurly st = 0 then st\<lparr>buf := b\<lparr>body := (body b)\<lparr>start := ptr b\<rparr>\<rparr>\<rparr>
               else st\<lparr>buf := parseStatement b\<rparr>)
                \<lparr>depthCurly := depthCurly st + 1, inBetween := True\<rparr>)
      else if c = CHR ''}'' then
        (let st1 = st\<lparr>depthCurly := depthCurly st - 1\<rparr> in
         Some ((if depthCurly st1 = 0
                then st1\<lparr>buf := b\<lparr>body := set_end (body b) (ptr b + 1)\<rparr>, doFlush := True\<rparr>
                else st1\<lparr>buf := parseStatement b\<rparr>)\<lparr>inBetween := True\<rparr>))
      else if c = CHR '';'' then
        Some ((if depthCurly st = 0 then st\<lparr>doFlush := True\<rparr>
               else st\<lparr>buf := parseStatement b\<rparr>)\<lparr>inBetween := True\<rparr>)
      else if c = LF \<or> c = CR then Some (st\<lparr>isChar1 := True\<rparr>)
      else if inBetween st \<and> \<not> isspace c then
        Some ((if depthCurly st = 0 then st\<lparr>buf := b\<lparr>function' := (function' b)\<lparr>start := ptr b\<rparr>\<rparr>\<rparr>
               else st\<lparr>buf := b\<lparr>statementStart := ptr b\<rparr>\<rparr>)\<lparr>inBetween := False\<rparr>)
      else Some st)"

text \<open>"The main state machine": the chain of \<open>if\<close>s at the top of the loop body.\<close>

definition machine :: "tAppOptions \<Rightarrow> tState \<Rightarrow> char \<Rightarrow> char option \<Rightarrow> tState option" where
  "machine opts st c nextc =
     (if isLiteral st then Some (literal_step st c nextc)
      else if inComment st then comment_step opts st c
      else if inPreprocessor st then preprocessor_step opts st c nextc
      else if inSingleQuotes st then Some (single_quote_step st c)
      else if inDoubleQuotes st then Some (double_quote_step st c)
      else normal_step opts st c nextc)"

text \<open>The rest of the loop body, from the check of \<open>atStart\<close> on.\<close>

definition start_check :: "tAppOptions \<Rightarrow> tState \<Rightarrow> char \<Rightarrow> tState" where
  "start_check opts st c =
     (if atStart st \<and> \<not> isspace c then
        (if inComment st then st\<lparr>atStart := False, buf := (buf st)\<lparr>fileComment := True\<rparr>\<rparr>
         else st\<lparr>atStart := False, buf := newFileComment opts (buf st)\<rparr>)
      else st)"

definition emit_step :: "tState \<Rightarrow> char \<Rightarrow> tState" where
  "emit_step st c =
     (case emitChar (buf st) c of
        (b, overflow) \<Rightarrow> if overflow then st\<lparr>buf := b, doFlush := True\<rparr> else st\<lparr>buf := b\<rparr>)"

definition flush_step :: "tAppOptions \<Rightarrow> tState \<Rightarrow> tState option" where
  "flush_step opts st =
     (if doFlush st then
        (case flushBuffer opts (buf st) of
           None \<Rightarrow> None
         | Some b \<Rightarrow> Some (st\<lparr>doFlush := False, buf := b\<lparr>fileComment := False\<rparr>\<rparr>))
      else Some st)"

definition finish_step :: "tState \<Rightarrow> char \<Rightarrow> tState" where
  "finish_step st c =
     (if isChar1 st \<and> \<not> isspace c then st\<lparr>isChar1 := False, prevc := c\<rparr>
      else st\<lparr>prevc := c\<rparr>)"

definition step :: "tAppOptions \<Rightarrow> tState \<Rightarrow> char \<Rightarrow> char option \<Rightarrow> tState option" where
  "step opts st c nextc =
     (case machine opts st c nextc of
        None \<Rightarrow> None
      | Some st1 \<Rightarrow>
          (case flush_step opts (emit_step (start_check opts st1 c) c) of
             None \<Rightarrow> None
           | Some st2 \<Rightarrow> Some (finish_step st2 c)))"

text \<open>
  The \<open>while\<close> loop over the input. Nothing happens after \<open>exit\<close>, so the loop
  of the model stops there.
\<close>

fun run :: "tAppOptions \<Rightarrow> tState \<Rightarrow> string \<Rightarrow> tState option" where
  "run opts st [] = Some st"
| "run opts st (c # cs) =
     (case step opts st c (case cs of [] \<Rightarrow> None | n # _ \<Rightarrow> Some n) of
        None \<Rightarrow> None
      | Some st1 \<Rightarrow> if exited (buf st1) then Some st1 else run opts st1 cs)"

definition init_state :: "tBuffer \<Rightarrow> tState" where
  "init_state b =
     \<lparr>buf = b, prevc = NUL, depthCurly = 0, depthRound = 0,
      inComment = False, inCppComment = False, inPreprocessor = False,
      inSingleQuotes = False, inDoubleQuotes = False, inBetween = True,
      isLiteral = False, isChar1 = True, atStart = True, doFlush = False\<rparr>"

text \<open>
  How a call of \<open>processFile\<close> ends: it returns a code, the process exits, or
  the process is ended by a memory fault; each with the text written to the
  output file.
\<close>

datatype outcome = Returned int string | Exited int string | Crashed string

text \<open>
  \<open>processFile\<close> on the bytes of the input file. The buffer's storage (its
  memory, base address and capacity) and the allocation outcomes come from the
  environment; the first allocation is that of the buffer itself.
\<close>

definition processFile ::
  "tAppOptions \<Rightarrow> memory \<Rightarrow> addr \<Rightarrow> int \<Rightarrow> bool list \<Rightarrow> string \<Rightarrow> outcome option" where
  "processFile opts m base cap oks input =
     (case malloc oks of
        (buf_ok, oks1) \<Rightarrow>
          if \<not> buf_ok then Some (Returned (- 108) [])
          else
            (case run opts (init_state (initBuffer m base cap oks1)) input of
               None \<Rightarrow> None
             | Some st \<Rightarrow>
                 if faulted (buf st) then Some (Crashed (file' (buf st)))
                 else if exited (buf st) then Some (Exited 1 (file' (buf st)))
                 else (case flushBuffer opts (buf st) of
                         None \<Rightarrow> None
                       | Some b \<Rightarrow>
                           if exited b then Some (Exited 1 (file' b))
                           else Some (Returned 0 (file' b)))))"

section \<open>Fixtures, the spec's wording and invariants\<close>

text \<open>A buffer that has accumulated the text \<open>s\<close> (at address 1000, capacity 4096).\<close>

definition buffer_with :: "string \<Rightarrow> tBuffer" where
  "buffer_with s = (initBuffer (mem_of 1000 s) 1000 4096 [])\<lparr>ptr := 1000 + int (length s)\<rparr>"

text \<open>
  The words of the spec about a returned expression, on the text itself.
  \<open>trimmed\<close> is the text without its leading and trailing whitespace.
  \<open>closing_index\<close> scans for the closing parenthesis that brings the nesting
  depth back to zero, and \<open>wrapped_in_matching_pair\<close> is "contains exactly one
  opening parenthesis, starts with it, and ends with its matching closing
  parenthesis".
\<close>

definition trimmed :: "string \<Rightarrow> string" where
  "trimmed xs = rev (dropWhile isspace (rev (dropWhile isspace xs)))"

fun closing_index :: "string \<Rightarrow> nat \<Rightarrow> nat \<Rightarrow> nat option" where
  "closing_index [] depth i = None"
| "closing_index (c # cs) depth i =
     (if c = CHR ''('' then closing_index cs (depth + 1) (i + 1)
      else if c = CHR '')'' then
        (if depth \<le> 1 then Some i else closing_index cs (depth - 1) (i + 1))
      else closing_index cs depth (i + 1))"

definition wrapped_in_matching_pair :: "string \<Rightarrow> bool" where
  "wrapped_in_matching_pair expr =
     (count_list expr (CHR ''('') = 1 \<and> expr \<noteq> [] \<and> hd expr = CHR ''(''
      \<and> closing_index expr 0 0 = Some (length expr - 1))"

text \<open>
  The weaker condition: exactly one opening parenthesis appears in the
  expression, the expression starts with it, and its last character is a
  closing parenthesis, the match of the opening one or not.
\<close>

definition wrapped_once :: "string \<Rightarrow> bool" where
  "wrapped_once expr =
     (count_list expr (CHR ''('') = 1 \<and> expr \<noteq> [] \<and> hd expr = CHR ''('' \<and> last expr = CHR '')'')"

text \<open>A buffer that has accumulated the statement \<open>s\<close>, which starts at its first byte.\<close>

definition return_buffer :: "string \<Rightarrow> tBuffer" where
  "return_buffer s = (buffer_with s)\<lparr>statementStart := 1000\<rparr>"

text \<open>A buffer whose \<open>arglist\<close> range is the whole accumulated text \<open>s\<close>.\<close>

definition args_buf :: "string \<Rightarrow> tBuffer" where
  "args_buf s = (buffer_with s)\<lparr>arglist := \<lparr>start = 1000, end' = 1000 + int (length s), count = 1\<rparr>\<rparr>"

text \<open>No file name, no boilerplate, prototype-only mode off.\<close>

definition plain_options :: tAppOptions where
  "plain_options = \<lparr>filename = None, boilerplate = None, onlyPrototypes = False\<rparr>"

text \<open>The state in which \<open>processFile\<close> enters its loop, on a zeroed buffer.\<close>

definition fresh_state :: tState where
  "fresh_state = init_state (initBuffer (\<lambda>a. NUL) 1000 4096 [])"

text \<open>What \<open>newFileComment\<close> writes under \<open>plain_options\<close>.\<close>

definition new_file_header :: string where
  "new_file_header = ''/**'' @ [LF, TAB] @ ''@file <unknown>'' @ [LF, LF, TAB]
     @ ''Put a description of the file here.'' @ [LF] @ [LF, TAB]
     @ ''@todo Edit file comment (automatically generated by insertdox)''
     @ [LF] @ ''*/'' @ [LF] @ ''/* $Header$ */'' @ [LF, LF]"

text \<open>
  For stating what a function leaves alone: a buffer with the output text
  blanked, with the output, the allocation outcomes and the exit flag blanked,
  and with the output and the description range blanked.
\<close>

definition out_erase :: "tBuffer \<Rightarrow> tBuffer" where
  "out_erase b = b\<lparr>file' := []\<rparr>"

definition io_erase :: "tBuffer \<Rightarrow> tBuffer" where
  "io_erase b = (out_erase b)\<lparr>heap_ok := [], exited := False\<rparr>"

definition desc_erase :: "tBuffer \<Rightarrow> tBuffer" where
  "desc_erase b = (out_erase b)\<lparr>description := no_range\<rparr>"

text \<open>
  A buffer that has accumulated a line feed and then a function definition
  (declarator, parenthesised parameters, braced body), with the three ranges
  captured once each and the given mined return values.
\<close>

definition accumulated_function :: "string \<Rightarrow> string \<Rightarrow> string \<Rightarrow> string list \<Rightarrow> tBuffer" where
  "accumulated_function decl args block rv =
     (let fs = 1001; fe = fs + int (length decl); ae = fe + int (length args);
          be = ae + int (length block)
      in (buffer_with ([LF] @ decl @ args @ block))
           \<lparr>function' := \<lparr>start = fs, end' = fe, count = 1\<rparr>,
            arglist := \<lparr>start = fe, end' = ae, count = 1\<rparr>,
            body := \<lparr>start = ae, end' = be, count = 1\<rparr>,
            retvals := rv\<rparr>)"

text \<open>Where the description range of a rendered function starts and ends.\<close>

definition description_start :: "tBuffer \<Rightarrow> addr" where
  "description_start b =
     (if count (description b) = 0 then start (function' b) - 1 else start (description b))"

definition description_end :: "tBuffer \<Rightarrow> addr" where
  "description_end b =
     (if count (description b) = 0 then start (function' b) - 1 else end' (description b))"

text \<open>No file name, no boilerplate, prototype-only mode on.\<close>

definition prototype_options :: tAppOptions where
  "prototype_options = \<lparr>filename = None, boilerplate = None, onlyPrototypes = True\<rparr>"

text \<open>A buffer with what the mining routines may change blanked.\<close>

definition mine_erase :: "tBuffer \<Rightarrow> tBuffer" where
  "mine_erase b = b\<lparr>todos := [], notes' := [], retvals := [], heap_ok := [],
                     commentStart := 0, statementStart := 0, exited := False,
                     faulted := False\<rparr>"

text \<open>
  Invariants of the loop of \<open>processFile\<close>. \<open>geometry\<close> is about the buffer
  alone; \<open>Inv\<close> holds between two iterations, \<open>Mid\<close> after the state machine
  has handled a character, \<open>Post\<close> after the character has been appended.
\<close>

definition geometry :: "tBuffer \<Rightarrow> bool" where
  "geometry b =
     (0 \<le> data b \<and> data b \<le> ptr b \<and> start (body b) \<le> ptr b
      \<and> start (description b) \<le> ptr b \<and> count (description b) \<le> 1
      \<and> (count (description b) = 1 \<longrightarrow> start (description b) \<le> end' (description b)))"

definition normal_mode :: "tState \<Rightarrow> bool" where
  "normal_mode st =
     (\<not> inComment st \<and> \<not> isLiteral st \<and> \<not> inPreprocessor st \<and> \<not> inSingleQuotes st
      \<and> \<not> inDoubleQuotes st \<and> depthCurly st = 0)"

definition Inv :: "tState \<Rightarrow> bool" where
  "Inv st =
     (geometry (buf st) \<and> count (body (buf st)) = 0 \<and> \<not> doFlush st
      \<and> (inCppComment st \<longrightarrow> inComment st)
      \<and> (inComment st \<and> depthCurly st = 0 \<longrightarrow> count (description (buf st)) = 0)
      \<and> (fileComment (buf st) \<longrightarrow>
            inComment st \<and> depthCurly st = 0 \<and> data (buf st) < ptr (buf st))
      \<and> (atStart st \<longrightarrow> \<not> fileComment (buf st) \<and> normal_mode st))"

definition Mid :: "tState \<Rightarrow> bool" where
  "Mid st =
     (geometry (buf st) \<and> count (body (buf st)) \<le> 1
      \<and> (count (body (buf st)) = 1 \<longrightarrow>
            doFlush st \<and> start (body (buf st)) \<le> end' (body (buf st)))
      \<and> (inCppComment st \<longrightarrow> inComment st)
      \<and> (inComment st \<and> depthCurly st = 0 \<longrightarrow> count (description (buf st)) = 0)
      \<and> (fileComment (buf st) \<longrightarrow>
            depthCurly st = 0 \<and> data (buf st) < ptr (buf st) \<and> (inComment st \<or> doFlush st))
      \<and> (atStart st \<longrightarrow> \<not> fileComment (buf st) \<and> (inComment st \<longrightarrow> depthCurly st = 0)))"

definition Post :: "tState \<Rightarrow> bool" where
  "Post st =
     (geometry (buf st) \<and> data (buf st) < ptr (buf st) \<and> count (body (buf st)) \<le> 1
      \<and> (count (body (buf st)) = 1 \<longrightarrow>
            doFlush st \<and> start (body (buf st)) \<le> end' (body (buf st)))
      \<and> (inCppComment st \<longrightarrow> inComment st)
      \<and> (inComment st \<and> depthCurly st = 0 \<longrightarrow> count (description (buf st)) = 0)
      \<and> (fileComment (buf st) \<longrightarrow> depthCurly st = 0 \<and> (inComment st \<or> doFlush st))
      \<and> (atStart st \<longrightarrow> \<not> fileComment (buf st)))"

text \<open>
  The part of the spec's range invariant that concerns the body and description
  ranges: a count of at most 1, and \<open>start \<le> end\<close> once captured.
\<close>

definition ranges_ok :: "tBuffer \<Rightarrow> bool" where
  "ranges_ok b =
     (count (body b) \<le> 1 \<and> count (description b) \<le> 1
      \<and> (count (body b) = 1 \<longrightarrow> start (body b) \<le> end' (body b))
      \<and> (count (description b) = 1 \<longrightarrow> start (description b) \<le> end' (description b)))"

text \<open>
  The flush classification in the spec's words: a file header when the
  \<open>fileComment\<close> flag is set; a function definition when the \<open>function\<close>,
  \<open>arglist\<close> and \<open>body\<close> ranges were each captured exactly once; plain text
  otherwise (emitted unchanged, or dropped in prototype-only mode).
\<close>

datatype construct = FileHeader | FunctionDefinition | PlainText

definition spec_classify :: "tBuffer \<Rightarrow> construct" where
  "spec_classify b =
     (if fileComment b then FileHeader
      else if count (function' b) = 1 \<and> count (arglist b) = 1 \<and> count (body b) = 1
      then FunctionDefinition
      else PlainText)"

fun spec_render :: "tAppOptions \<Rightarrow> tBuffer \<Rightarrow> construct \<Rightarrow> tBuffer option" where
  "spec_render opts b FileHeader = Some (processFileComment opts b)"
| "spec_render opts b FunctionDefinition = processFunction opts b"
| "spec_render opts b PlainText =
     Some (if onlyPrototypes opts then b else dumpBlock b (data b) (ptr b))"

text \<open>
  The type classifier in the words of the spec, on the text of a declarator:
  trim the surrounding whitespace; if the trimmed text ends with \<open>]\<close>, strip
  one trailing bracket pair and record "is array"; the trailing identifier is
  the name; from the prefix before it strip the leading \<open>static\<close> and \<open>const\<close>
  keywords, recording each; from what remains trim the trailing whitespace and
  count and strip the trailing stars, with the whitespace between them.
\<close>

definition is_ident_char :: "char \<Rightarrow> bool" where
  "is_ident_char c = (isalnum c \<or> c = CHR ''_'')"

definition ends_with_bracket :: "string \<Rightarrow> bool" where
  "ends_with_bracket t = (t \<noteq> [] \<and> last t = CHR '']'')"

definition strip_brackets :: "string \<Rightarrow> string" where
  "strip_brackets t =
     (if ends_with_bracket t then rev (tl (dropWhile (\<lambda>c. c \<noteq> CHR ''['') (tl (rev t)))) else t)"

definition trailing_identifier :: "string \<Rightarrow> string" where
  "trailing_identifier u = rev (takeWhile is_ident_char (rev u))"

definition before_identifier :: "string \<Rightarrow> string" where
  "before_identifier u = rev (dropWhile is_ident_char (rev u))"

definition starts_with :: "string \<Rightarrow> string \<Rightarrow> bool" where
  "starts_with kw xs = (take (length kw) xs = kw)"

definition keyword_at :: "string \<Rightarrow> string \<Rightarrow> bool" where
  "keyword_at kw xs =
     (starts_with kw xs
      \<and> (case drop (length kw) xs of [] \<Rightarrow> True | c # cs \<Rightarrow> \<not> is_ident_char c))"

function strip_leading_keywords :: "string \<Rightarrow> bool \<Rightarrow> bool \<Rightarrow> string \<times> bool \<times> bool" where
  "strip_leading_keywords xs st co =
     (if keyword_at ''static'' xs
      then strip_leading_keywords (dropWhile isspace (drop 6 xs)) True co
      else if keyword_at ''const'' xs
      then strip_leading_keywords (dropWhile isspace (drop 5 xs)) st True
      else (xs, st, co))"
  by pat_completeness auto
termination
proof (relation "measure (\<lambda>(xs, st, co). length xs)")
  show "wf (measure (\<lambda>(xs, st, co). length xs))" by simp
next
  fix xs :: string and st co :: bool
  assume "keyword_at ''static'' xs"
  then have "length xs \<ge> 6"
    by (cases "length xs \<ge> 6") (auto simp: keyword_at_def starts_with_def)
  moreover have "length (dropWhile isspace (drop 6 xs)) \<le> length (drop 6 xs)"
    by (rule length_dropWhile_le)
  ultimately show "((dropWhile isspace (drop 6 xs), True, co), (xs, st, co))
      \<in> measure (\<lambda>(xs, st, co). length xs)"
    by simp
next
  fix xs :: string and st co :: bool
  assume "keyword_at ''const'' xs"
  then have "length xs \<ge> 5"
    by (cases "length xs \<ge> 5") (auto simp: keyword_at_def starts_with_def)
  moreover have "length (dropWhile isspace (drop 5 xs)) \<le> length (drop 5 xs)"
    by (rule length_dropWhile_le)
  ultimately show "((dropWhile isspace (drop 5 xs), st, True), (xs, st, co))
      \<in> measure (\<lambda>(xs, st, co). length xs)"
    by simp
qed

declare strip_leading_keywords.simps [simp del]

text \<open>
  The trailing stars of a text, counted on the reversed text: \<open>stars_rev\<close> is
  given the text backwards, without its trailing whitespace.
\<close>

function stars_rev :: "string \<Rightarrow> string \<times> nat" where
  "stars_rev zs =
     (case zs of
        [] \<Rightarrow> ([], 0)
      | c # cs \<Rightarrow>
          if c = CHR ''*''
          then (case stars_rev (dropWhile isspace cs) of (b, k) \<Rightarrow> (b, Suc k))
          else (zs, 0))"
  by pat_completeness auto
termination
proof (relation "measure length")
  show "wf (measure length)" by simp
next
  fix zs :: string and c :: char and cs :: string
  assume "zs = c # cs"
  moreover have "length (dropWhile isspace cs) \<le> length cs" by (rule length_dropWhile_le)
  ultimately show "(dropWhile isspace cs, zs) \<in> measure length" by simp
qed

declare stars_rev.simps [simp del]

definition strip_stars :: "string \<Rightarrow> string \<times> nat" where
  "strip_stars xs = (case stars_rev (dropWhile isspace (rev xs)) of (b, k) \<Rightarrow> (rev b, k))"

text \<open>
  Every \<open>static\<close> or \<open>const\<close> that the text begins with, keyword after keyword,
  is a whole word: the letters are not the beginning of a longer identifier.
\<close>

function keywords_are_words :: "string \<Rightarrow> bool" where
  "keywords_are_words xs =
     (if starts_with ''static'' xs
      then keyword_at ''static'' xs \<and> keywords_are_words (dropWhile isspace (drop 6 xs))
      else if starts_with ''const'' xs
      then keyword_at ''const'' xs \<and> keywords_are_words (dropWhile isspace (drop 5 xs))
      else True)"
  by pat_completeness auto
termination
proof (relation "measure length")
  show "wf (measure length)" by simp
next
  fix xs :: string
  assume "starts_with ''static'' xs"
  then have "length xs \<ge> 6"
    by (cases "length xs \<ge> 6") (auto simp: starts_with_def)
  moreover have "length (dropWhile isspace (drop 6 xs)) \<le> length (drop 6 xs)"
    by (rule length_dropWhile_le)
  ultimately show "(dropWhile isspace (drop 6 xs), xs) \<in> measure length" by simp
next
  fix xs :: string
  assume "starts_with ''const'' xs"
  then have "length xs \<ge> 5"
    by (cases "length xs \<ge> 5") (auto simp: starts_with_def)
  moreover have "length (dropWhile isspace (drop 5 xs)) \<le> length (drop 5 xs)"
    by (rule length_dropWhile_le)
  ultimately show "(dropWhile isspace (drop 5 xs), xs) \<in> measure length" by simp
qed

declare keywords_are_words.simps [simp del]

text \<open>
  What the classifier gives for a declarator: the phrase (as the C string it
  is, it ends at a NUL byte of the base type), the name, and the two flags.
  The input-only guess is "const-qualified, or pointer depth zero and not an
  array", with the constness and the depth found as above.
\<close>

record declarator =
  phrase :: string
  declared_name :: string
  declared_static :: bool
  input_only :: bool

definition classify :: "string \<Rightarrow> declarator" where
  "classify d =
     (let t = trimmed d;
          u = strip_brackets t
      in case strip_leading_keywords (before_identifier u) False False of
           (rest, st, co) \<Rightarrow>
             (case strip_stars rest of
                (base, depth) \<Rightarrow>
                  \<lparr>phrase = concat (replicate depth ''a pointer to '')
                      @ (if ends_with_bracket t then ''an array of '' else [])
                      @ (if co then ''const '' else [])
                      @ takeWhile (\<lambda>c. c \<noteq> NUL) base,
                   declared_name = trailing_identifier u,
                   declared_static = st,
                   input_only = (co \<or> (depth = 0 \<and> \<not> ends_with_bracket t))\<rparr>))"


text \<open>
  The declarators the classifier is meant for. The text is empty or not blank;
  a closing bracket at its end has its opening bracket, after some text; the
  leading keywords are whole words, and where nothing but keywords stands
  before the name, the name does not begin with the letters of one; what
  follows the keywords does not begin with a star; and the phrase fits the
  200 bytes of the \<open>type\<close> buffer.
\<close>

definition regular_declarator :: "string \<Rightarrow> bool" where
  "regular_declarator d =
     (let t = trimmed d;
          u = strip_brackets t
      in (d = [] \<or> t \<noteq> [])
         \<and> (ends_with_bracket t \<longrightarrow> CHR ''['' \<in> set (butlast t) \<and> u \<noteq> [])
         \<and> keywords_are_words (before_identifier u)
         \<and> (case strip_leading_keywords (before_identifier u) False False of
               (rest, st, co) \<Rightarrow>
                 (rest = [] \<longrightarrow> \<not> starts_with ''static'' (trailing_identifier u)
                                \<and> \<not> starts_with ''const'' (trailing_identifier u))
                 \<and> (rest \<noteq> [] \<longrightarrow> hd rest \<noteq> CHR ''*'')
                 \<and> (case strip_stars rest of
                        (base, depth) \<Rightarrow>
                          13 * depth + (if ends_with_bracket t then 12 else 0)
                            + (if co then 6 else 0) + length base < 200)))"

text \<open>
  The parts of the direction guess, on the text of a declarator: whether the
  prefix before the name begins with the keyword \<open>const\<close> (after any other
  leading keyword), and the number of stars directly before the name.
\<close>

definition leading_keywords :: "string \<Rightarrow> string \<times> bool \<times> bool" where
  "leading_keywords d =
     strip_leading_keywords (before_identifier (strip_brackets (trimmed d))) False False"

definition begins_const :: "string \<Rightarrow> bool" where
  "begins_const d = snd (snd (leading_keywords d))"

definition pointer_depth :: "string \<Rightarrow> nat" where
  "pointer_depth d = snd (strip_stars (fst (leading_keywords d)))"

text \<open>
  "Const-qualified" read as the claim words it: the word \<open>const\<close> is one of the
  identifiers of the declarator, wherever it stands.
\<close>

fun identifiers_from :: "string \<Rightarrow> string \<Rightarrow> string list" where
  "identifiers_from [] w = [rev w]"
| "identifiers_from (c # cs) w =
     (if is_ident_char c then identifiers_from cs (c # w) else rev w # identifiers_from cs [])"

definition const_qualified :: "string \<Rightarrow> bool" where
  "const_qualified d = (''const'' \<in> set (identifiers_from d []))"

text \<open>A buffer whose \<open>arglist\<close> range holds four parameters, the last an array.\<close>

definition params_buf :: tBuffer where
  "params_buf = args_buf ''(const char *s, int n, char *buf, int a[3])''"

section \<open>Theorems\<close>

subsection \<open>addString\<close>

lemma addString_in_range:
  assumes "s \<le> e" and "e - s < PTRDIFF_MAX"
    and "h malloc1 = None" and "h malloc2 = None"
    and "malloc1 = 0 \<or> malloc1 \<noteq> malloc2"
    and "addString h malloc1 malloc2 junk sl m s e = Inr (h', sl')"
  shows "(if malloc1 \<noteq> 0 \<and> malloc2 \<noteq> 0
          then sl' = malloc1
             \<and> h' malloc1 = Some (Element sl malloc2)
             \<and> h' malloc2 = Some (Chars (range_text m s e @ [NUL]))
          else sl' = sl)
       \<and> (\<forall>a. h a \<noteq> None \<longrightarrow> h' a = h a)"
proof -
  have l: "size_t (e - s) = e - s" "size_t (e - s + 1) = e - s + 1"
    using assms(1,2) by (simp_all add: size_t_def PTRDIFF_MAX_def)
  show ?thesis
    using assms l
    by (auto simp: addString_def Let_def range_text_def malloc_sized_def copy_fits_def
        PTRDIFF_MAX_def split: if_splits)
qed

lemma addString_never_faults_in_range:
  assumes "s \<le> e" and "e - s < PTRDIFF_MAX"
  shows "addString h malloc1 malloc2 junk sl m s e \<noteq> Inl Fault"
proof -
  have "size_t (e - s) = e - s" "size_t (e - s + 1) = e - s + 1"
    using assms by (simp_all add: size_t_def PTRDIFF_MAX_def)
  then show ?thesis
    by (simp add: addString_def Let_def copy_fits_def)
qed

text \<open>
  C10: \<open>addString\<close> as \<open>parseComment\<close> calls it for the comment \<open>/* todo */\<close>
  in the body of \<open>void f()\<close>. When the closing slash arrives the two arguments
  are \<open>skipPunct (p + 4) ptr = ptr\<close> and \<open>trimComment ptr (p + 4) = ptr - 1\<close>:
  the end lies before the start. \<open>len\<close> wraps to \<open>SIZE_MAX\<close>, \<open>malloc(len + 1)\<close>
  is a request for no bytes, and when it returns a block the copy of \<open>len\<close>
  bytes faults: the call neither adds an element nor returns with the list
  unchanged, and \<open>processFile\<close> ends in that fault.
\<close>

theorem addString_faults_on_inverted_range:
  "(let st = the (run plain_options fresh_state ''void f(){ /* todo *'');
        m = mem (buf st);
        p = skipPunct m (commentStart (buf st)) (ptr (buf st))
    in (ptr (buf st), skipPunct m (p + 4) (ptr (buf st)), trimComment m (ptr (buf st)) (p + 4)))
   = (1019, 1019, 1018)
   \<and> isl (addString Map.empty 100 200 7 0
       (mem (buf (the (run plain_options fresh_state ''void f(){ /* todo *'')))) 1019 1018)
   \<and> processFile plain_options (\<lambda>a. NUL) 1000 4096 [] ''void f(){ /* todo */ }''
     = Some (Crashed new_file_header)"
  by code_simp

subsection \<open>Return statements\<close>

lemma range_text_step: "p < e \<Longrightarrow> range_text m p e = m p # range_text m (p + 1) e"
proof -
  assume "p < e"
  then have "nat (e - p) = Suc (nat (e - (p + 1)))" by simp
  then show ?thesis by (simp add: range_text_def)
qed

lemma range_text_empty: "e \<le> p \<Longrightarrow> range_text m p e = []"
  by (simp add: range_text_def)

lemma count_open_count_list:
  "count_open m p e n = n + int (count_list (range_text m p e) (CHR ''(''))"
proof (induction m p e n rule: count_open.induct)
  case (1 m p e n)
  show ?case
  proof (cases "p < e")
    case True
    then show ?thesis
      using "1.IH" [OF True] by (subst count_open.simps, subst range_text_step [OF True]) simp
  next
    case False
    then show ?thesis
      by (subst count_open.simps) (simp add: range_text_empty)
  qed
qed

lemma last_bytes_at: "last (bytes_at m p (Suc n)) = m (p + int n)"
proof (induction n arbitrary: p)
  case 0
  show ?case by simp
next
  case (Suc n)
  have "last (bytes_at m p (Suc (Suc n))) = last (bytes_at m (p + 1) (Suc n))"
    by simp
  also have "\<dots> = m (p + 1 + int n)" by (rule Suc.IH)
  also have "p + 1 + int n = p + int (Suc n)" by simp
  finally show ?case .
qed

lemma last_range_text: "p < e \<Longrightarrow> last (range_text m p e) = m (e - 1)"
proof -
  assume h: "p < e"
  then obtain n where n: "nat (e - p) = Suc n" by (cases "nat (e - p)") auto
  then have "int n = e - p - 1" by linarith
  then show ?thesis using n by (simp add: range_text_def last_bytes_at del: bytes_at.simps)
qed

lemma hd_range_text: "p < e \<Longrightarrow> hd (range_text m p e) = m p"
  by (subst range_text_step) simp_all

lemma strip_test:
  "(m s = CHR ''('' \<and> count_open m s e 0 = 1 \<and> m (e - 1) = CHR '')'') = wrapped_once (range_text m s e)"
proof (cases "s < e")
  case True
  then have "range_text m s e \<noteq> []" by (subst range_text_step) simp_all
  then show ?thesis
    using True by (auto simp: wrapped_once_def count_open_count_list hd_range_text last_range_text)
next
  case False
  then show ?thesis
    by (simp add: wrapped_once_def count_open_count_list range_text_empty)
qed

lemma range_text_snoc: "s \<le> p \<Longrightarrow> range_text m s (p + 1) = range_text m s p @ [m p]"
proof (induction "nat (p - s)" arbitrary: s)
  case 0
  then have "p = s" by simp
  then show ?case by (simp add: range_text_def)
next
  case (Suc n)
  then have lt: "s < p" and n: "n = nat (p - (s + 1))" by linarith+
  have "range_text m s (p + 1) = m s # range_text m (s + 1) (p + 1)"
    using lt by (subst range_text_step) simp_all
  also have "range_text m (s + 1) (p + 1) = range_text m (s + 1) p @ [m p]"
    using Suc.hyps(1) [OF n] lt by simp
  also have "m s # (range_text m (s + 1) p @ [m p]) = range_text m s p @ [m p]"
    using lt by (subst (2) range_text_step) simp_all
  finally show ?case .
qed

lemma length_range_text: "length (range_text m s e) = nat (e - s)"
proof -
  have "length (bytes_at m s n) = n" for n s
    by (induction n arbitrary: s) simp_all
  then show ?thesis by (simp add: range_text_def)
qed

lemma skipSpace_go: "p < e \<Longrightarrow> isspace (m p) \<Longrightarrow> skipSpace m p e = skipSpace m (p + 1) e"
  by (subst skipSpace.simps) simp

lemma skipSpace_stop: "\<not> (p < e \<and> isspace (m p)) \<Longrightarrow> skipSpace m p e = p"
  by (subst skipSpace.simps) auto

lemma trimSpace_loop_go:
  "p > s \<Longrightarrow> isspace (m p) \<Longrightarrow> trimSpace_loop m p s = trimSpace_loop m (p - 1) s"
  by (subst trimSpace_loop.simps) simp

lemma trimSpace_loop_stop: "\<not> (p > s \<and> isspace (m p)) \<Longrightarrow> trimSpace_loop m p s = p"
  by (subst trimSpace_loop.simps) auto

lemma skipSpace_range:
  "range_text m (skipSpace m p e) e = dropWhile isspace (range_text m p e)"
proof (induction m p e rule: skipSpace.induct)
  case (1 m p e)
  show ?case
  proof (cases "p < e")
    case True
    note lt = True
    have step: "range_text m p e = m p # range_text m (p + 1) e"
      by (rule range_text_step [OF lt])
    show ?thesis
    proof (cases "isspace (m p)")
      case True
      then show ?thesis
        using "1.IH" lt by (simp add: skipSpace_go step)
    next
      case False
      then show ?thesis by (simp add: skipSpace_stop step)
    qed
  next
    case False
    then show ?thesis by (simp add: skipSpace_stop range_text_empty)
  qed
qed

lemma skipSpace_bounds: "p \<le> e \<Longrightarrow> p \<le> skipSpace m p e \<and> skipSpace m p e \<le> e"
proof (induction m p e rule: skipSpace.induct)
  case (1 m p e)
  show ?case
  proof (cases "p < e \<and> isspace (m p)")
    case True
    then show ?thesis using "1.IH" by (simp add: skipSpace_go)
  next
    case False
    then show ?thesis using "1.prems" by (simp add: skipSpace_stop)
  qed
qed

lemma skipSpace_stops: "skipSpace m p e < e \<Longrightarrow> \<not> isspace (m (skipSpace m p e))"
proof (induction m p e rule: skipSpace.induct)
  case (1 m p e)
  show ?case
  proof (cases "p < e \<and> isspace (m p)")
    case True
    then show ?thesis using "1.IH" "1.prems" by (simp add: skipSpace_go)
  next
    case False
    then have "skipSpace m p e = p" by (rule skipSpace_stop)
    then show ?thesis using "1.prems" False by simp
  qed
qed

lemma skipSpace_shorter:
  "p \<le> e - 1 \<Longrightarrow> \<not> isspace (m (e - 1)) \<Longrightarrow> skipSpace m p e = skipSpace m p (e - 1)"
proof (induction m p e rule: skipSpace.induct)
  case (1 m p e)
  show ?case
  proof (cases "p < e - 1")
    case True
    note lt = True
    show ?thesis
    proof (cases "isspace (m p)")
      case True
      with lt have "skipSpace m p e = skipSpace m (p + 1) e"
        "skipSpace m p (e - 1) = skipSpace m (p + 1) (e - 1)"
        by (simp_all add: skipSpace_go)
      then show ?thesis using "1.IH" "1.prems" True lt by simp
    next
      case False
      then show ?thesis by (simp add: skipSpace_stop)
    qed
  next
    case False
    then have pe: "p = e - 1" using "1.prems" by simp
    then show ?thesis using "1.prems" by (simp add: skipSpace_stop)
  qed
qed

lemma trimSpace_loop_range:
  "s - 1 \<le> p \<Longrightarrow> (s \<le> p \<longrightarrow> \<not> isspace (m s)) \<Longrightarrow>
   range_text m s (trimSpace_loop m p s + 1) = rev (dropWhile isspace (rev (range_text m s (p + 1))))
   \<and> s \<le> trimSpace_loop m p s + 1 \<and> trimSpace_loop m p s \<le> p"
proof (induction m p s rule: trimSpace_loop.induct)
  case (1 m p s)
  show ?case
  proof (cases "p > s")
    case True
    note gt = True
    then have snoc: "range_text m s (p + 1) = range_text m s p @ [m p]"
      by (simp add: range_text_snoc)
    show ?thesis
    proof (cases "isspace (m p)")
      case True
      have eq: "trimSpace_loop m p s = trimSpace_loop m (p - 1) s"
        using gt True by (simp add: trimSpace_loop_go)
      have pre: "s - 1 \<le> p - 1" "s \<le> p - 1 \<longrightarrow> \<not> isspace (m s)"
        using gt "1.prems" by simp_all
      have "p > s \<and> isspace (m p)" using gt True by simp
      from "1.IH" [OF this pre] True
      show ?thesis by (simp add: eq snoc)
    next
      case False
      then have eq: "trimSpace_loop m p s = p" by (simp add: trimSpace_loop_stop)
      show ?thesis using False gt by (simp add: eq snoc)
    qed
  next
    case False
    then have eq: "trimSpace_loop m p s = p" by (simp add: trimSpace_loop_stop)
    show ?thesis
    proof (cases "p = s")
      case True
      have "range_text m s (s + 1) = [m s]"
        by (subst range_text_step) (simp_all add: range_text_empty)
      moreover have "trimSpace_loop m s s = s" by (simp add: trimSpace_loop_stop)
      ultimately show ?thesis using True "1.prems" by simp
    next
      case False
      with \<open>\<not> p > s\<close> "1.prems" have "p = s - 1" by simp
      moreover have "trimSpace_loop m (s - 1) s = s - 1" by (simp add: trimSpace_loop_stop)
      ultimately show ?thesis by (simp add: range_text_empty)
    qed
  qed
qed

lemma trimSpace_range:
  assumes "s \<le> e" and "s < e \<longrightarrow> \<not> isspace (m s)"
  shows "range_text m s (trimSpace m e s) = rev (dropWhile isspace (rev (range_text m s e)))"
    and "s \<le> trimSpace m e s" and "trimSpace m e s \<le> e"
  using trimSpace_loop_range [of s "e - 1" m] assms by (simp_all add: trimSpace_def)

text \<open>The range that \<open>skipSpace\<close> and \<open>trimSpace\<close> leave is the trimmed text.\<close>

lemma skip_trim_trimmed:
  assumes "p \<le> e"
  shows "range_text m (skipSpace m p e) (trimSpace m e (skipSpace m p e)) = trimmed (range_text m p e)"
    and "skipSpace m p e \<le> trimSpace m e (skipSpace m p e)"
    and "trimSpace m e (skipSpace m p e) \<le> e" and "p \<le> skipSpace m p e"
proof -
  define s where "s = skipSpace m p e"
  have b: "p \<le> s" "s \<le> e" using skipSpace_bounds [OF assms] by (simp_all add: s_def)
  have n: "s < e \<longrightarrow> \<not> isspace (m s)" using skipSpace_stops by (simp add: s_def)
  have "range_text m s (trimSpace m e s) = rev (dropWhile isspace (rev (range_text m s e)))"
    using b(2) n by (rule trimSpace_range(1))
  then show "range_text m (skipSpace m p e) (trimSpace m e (skipSpace m p e))
      = trimmed (range_text m p e)"
    by (simp add: s_def skipSpace_range trimmed_def)
  have "s \<le> trimSpace m e s" using b(2) n by (rule trimSpace_range(2))
  then show "skipSpace m p e \<le> trimSpace m e (skipSpace m p e)" by (simp add: s_def)
  have "trimSpace m e s \<le> e" using b(2) n by (rule trimSpace_range(3))
  then show "trimSpace m e (skipSpace m p e) \<le> e" by (simp add: s_def)
  show "p \<le> skipSpace m p e" using b(1) by (simp add: s_def)
qed

lemma addStringL_in_range:
  assumes "s \<le> e" and "e - s < PTRDIFF_MAX"
  shows "addStringL [] sl m s e = Inr ([], takeWhile (\<lambda>c. c \<noteq> NUL) (range_text m s e) # sl)"
proof -
  have "size_t (e - s) = e - s" "size_t (e - s + 1) = e - s + 1"
    using assms by (simp_all add: size_t_def PTRDIFF_MAX_def)
  then show ?thesis
    using assms
    by (simp add: addStringL_def malloc_def malloc_bytes_def copy_fits_def c_string_def
        range_text_def Let_def)
qed


lemma wrapped_once_inner:
  assumes "wrapped_once (range_text m s e)"
  shows "s + 1 \<le> e - 1" and "m s = CHR ''(''" and "m (e - 1) = CHR '')''"
    and "butlast (tl (range_text m s e)) = range_text m (s + 1) (e - 1)"
proof -
  have ne: "range_text m s e \<noteq> []" using assms by (simp add: wrapped_once_def)
  then have lt: "s < e" using range_text_empty [of e s m] by (cases "s < e") auto
  show h: "m s = CHR ''(''" using assms lt by (simp add: wrapped_once_def hd_range_text)
  show l: "m (e - 1) = CHR '')''" using assms lt by (simp add: wrapped_once_def last_range_text)
  from h l have "s \<noteq> e - 1" by auto
  with lt show le: "s + 1 \<le> e - 1" by simp
  have "range_text m s e = m s # range_text m (s + 1) e" by (rule range_text_step [OF lt])
  moreover have "range_text m (s + 1) e = range_text m (s + 1) (e - 1) @ [m (e - 1)]"
    using range_text_snoc [of "s + 1" "e - 1" m] le by simp
  ultimately show "butlast (tl (range_text m s e)) = range_text m (s + 1) (e - 1)" by simp
qed

lemma closing_index_is_close:
  "closing_index xs d i = Some j \<Longrightarrow> i \<le> j \<and> j < i + length xs \<and> xs ! (j - i) = CHR '')''"
proof (induction xs d i rule: closing_index.induct)
  case (1 depth i)
  then show ?case by simp
next
  case (2 c cs depth i)
  then show ?case
    by (auto split: if_splits simp: nth_Cons' Suc_diff_le)
qed

lemma matching_pair_wrapped_once: "wrapped_in_matching_pair expr \<Longrightarrow> wrapped_once expr"
proof -
  assume h: "wrapped_in_matching_pair expr"
  then have ne: "expr \<noteq> []" and c: "closing_index expr 0 0 = Some (length expr - 1)"
    by (simp_all add: wrapped_in_matching_pair_def)
  from closing_index_is_close [OF c] have "expr ! (length expr - 1) = CHR '')''" by simp
  then have "last expr = CHR '')''" using ne by (simp add: last_conv_nth)
  then show ?thesis using h by (simp add: wrapped_in_matching_pair_def wrapped_once_def)
qed

text \<open>
  C5: when a statement that starts with \<open>return\<close> is mined (the allocations
  succeeding), the value recorded is read off the text after the keyword:
  that text trimmed of whitespace, and, exactly when the trimmed expression
  contains exactly one opening parenthesis, starts with it and has a closing
  parenthesis as its last character, without its first and last character and
  trimmed again. (The value is kept as a C string: it ends at a NUL byte.)
  \<open>return  ( x )  \<close> records \<open>x\<close>, and \<open>return (a)+(b)\<close> records \<open>(a)+(b)\<close>.
\<close>

theorem parseStatement_return_parens:
  assumes "statementStart b \<noteq> 0"
    and "strncmp_eq (mem b) (statementStart b) ''return''"
    and "statementStart b + 6 \<le> ptr b"
    and "ptr b - statementStart b < PTRDIFF_MAX"
    and "heap_ok b = []"
  shows "retvals (parseStatement b) =
     (let expr = trimmed (range_text (mem b) (statementStart b + 6) (ptr b))
      in takeWhile (\<lambda>c. c \<noteq> NUL)
           (if wrapped_once expr then trimmed (butlast (tl expr)) else expr)) # retvals b"
proof -
  define m where "m = mem b"
  define s where "s = skipSpace m (statementStart b + 6) (ptr b)"
  define e where "e = trimSpace m (ptr b) s"
  have expr: "range_text m s e = trimmed (range_text m (statementStart b + 6) (ptr b))"
    and se: "s \<le> e" and e: "e \<le> ptr b" and s: "statementStart b + 6 \<le> s"
    using skip_trim_trimmed [OF assms(3), of m] by (simp_all add: s_def e_def)
  have test: "(m s = CHR ''('' \<and> count_open m s e 0 = 1 \<and> m (e - 1) = CHR '')'')
      = wrapped_once (range_text m s e)"
    by (rule strip_test)
  show ?thesis
  proof (cases "wrapped_once (range_text m s e)")
    case True
    define s' where "s' = skipSpace m (s + 1) e"
    define e' where "e' = trimSpace m (e - 1) s'"
    note w = wrapped_once_inner [OF True]
    have "\<not> isspace (m (e - 1))" using w(3) by (simp add: isspace_def)
    then have s'_eq: "s' = skipSpace m (s + 1) (e - 1)"
      unfolding s'_def using w(1) by (rule skipSpace_shorter [rotated])
    have inner: "range_text m s' e' = trimmed (range_text m (s + 1) (e - 1))"
      and se': "s' \<le> e'" and e'': "e' \<le> e - 1" and s'': "s + 1 \<le> s'"
      using skip_trim_trimmed [OF w(1), of m] by (simp_all add: s'_eq e'_def)
    have "e' - s' < PTRDIFF_MAX" using e'' s'' e s assms(4) by simp
    then have add: "addStringL [] (retvals b) m s' e'
        = Inr ([], takeWhile (\<lambda>c. c \<noteq> NUL) (range_text m s' e') # retvals b)"
      using se' by (simp add: addStringL_in_range)
    have "parseStatement b = (add_retval b s' e')\<lparr>statementStart := 0\<rparr>"
      using assms(1,2) True test
      by (simp add: parseStatement_def Let_def m_def [symmetric] s_def [symmetric]
          e_def [symmetric] s'_def [symmetric] e'_def [symmetric])
    then have "retvals (parseStatement b)
        = takeWhile (\<lambda>c. c \<noteq> NUL) (range_text m s' e') # retvals b"
      using add assms(5) by (simp add: add_retval_def m_def [symmetric])
    then show ?thesis
      using True by (simp add: Let_def m_def [symmetric] expr [symmetric] inner w(4))
  next
    case False
    have "e - s < PTRDIFF_MAX" using e s assms(4) by simp
    then have add: "addStringL [] (retvals b) m s e
        = Inr ([], takeWhile (\<lambda>c. c \<noteq> NUL) (range_text m s e) # retvals b)"
      using se by (simp add: addStringL_in_range)
    have "parseStatement b = (add_retval b s e)\<lparr>statementStart := 0\<rparr>"
      using assms(1,2) False test
      by (auto simp: parseStatement_def Let_def m_def [symmetric] s_def [symmetric]
          e_def [symmetric])
    then have "retvals (parseStatement b)
        = takeWhile (\<lambda>c. c \<noteq> NUL) (range_text m s e) # retvals b"
      using add assms(5) by (simp add: add_retval_def m_def [symmetric])
    then show ?thesis
      using False by (simp add: Let_def m_def [symmetric] expr [symmetric])
  qed
qed

theorem parseStatement_return_parens_witness:
  "retvals (parseStatement (return_buffer ''return  ( x )  '')) = [''x'']
   \<and> retvals (parseStatement (return_buffer ''return (a)+(b) '')) = [''(a)+(b)'']
   \<and> retvals (parseStatement (return_buffer ''return (x)'')) = [''x'']"
proof -
  let ?b1 = "return_buffer ''return  ( x )  ''"
  let ?b2 = "return_buffer ''return (a)+(b) ''"
  let ?b3 = "return_buffer ''return (x)''"
  have p1: "statementStart ?b1 \<noteq> 0" "strncmp_eq (mem ?b1) (statementStart ?b1) ''return''"
    "statementStart ?b1 + 6 \<le> ptr ?b1" "ptr ?b1 - statementStart ?b1 < PTRDIFF_MAX"
    "heap_ok ?b1 = []"
    by code_simp+
  have p2: "statementStart ?b2 \<noteq> 0" "strncmp_eq (mem ?b2) (statementStart ?b2) ''return''"
    "statementStart ?b2 + 6 \<le> ptr ?b2" "ptr ?b2 - statementStart ?b2 < PTRDIFF_MAX"
    "heap_ok ?b2 = []"
    by code_simp+
  have p3: "statementStart ?b3 \<noteq> 0" "strncmp_eq (mem ?b3) (statementStart ?b3) ''return''"
    "statementStart ?b3 + 6 \<le> ptr ?b3" "ptr ?b3 - statementStart ?b3 < PTRDIFF_MAX"
    "heap_ok ?b3 = []"
    by code_simp+
  have "retvals (parseStatement ?b1) = [''x'']"
    by (subst parseStatement_return_parens [OF p1]) code_simp
  moreover have "retvals (parseStatement ?b2) = [''(a)+(b)'']"
    by (subst parseStatement_return_parens [OF p2]) code_simp
  moreover have "retvals (parseStatement ?b3) = [''x'']"
    by (subst parseStatement_return_parens [OF p3]) code_simp
  ultimately show ?thesis by simp
qed

text \<open>
  C5, the counterexample: in \<open>return (a))\<close> the expression has one opening
  parenthesis and starts with it, but the parenthesis that closes it is the
  third character, not the last. The parentheses are stripped all the same,
  and \<open>a)\<close> is recorded.
\<close>

theorem return_strips_unmatched_pair:
  "retvals (parseStatement (return_buffer ''return (a))'')) = [''a)'']
   \<and> \<not> wrapped_in_matching_pair (trimmed ''(a))'')
   \<and> closing_index ''(a))'' 0 0 = Some 2"
  by code_simp

subsection \<open>The type classifier against the text\<close>

lemma isspace_not_ident: "isspace c \<Longrightarrow> \<not> is_ident_char c"
  by (auto simp: isspace_def is_ident_char_def isalnum_def Let_def)

lemma keyword_letters:
  "\<forall>c\<in>set ''static''. is_ident_char c" "\<forall>c\<in>set ''const''. is_ident_char c"
  by (simp_all add: is_ident_char_def isalnum_def)

lemma bytes_at_nth: "i < n \<Longrightarrow> bytes_at m s n ! i = m (s + int i)"
proof (induction n arbitrary: s i)
  case 0
  then show ?case by simp
next
  case (Suc n)
  show ?case
  proof (cases i)
    case 0
    then show ?thesis by simp
  next
    case (Suc j)
    then have "j < n" using Suc.prems by simp
    from Suc.IH [OF this, of "s + 1"] Suc show ?thesis by (simp add: add.assoc)
  qed
qed

lemma length_bytes_at: "length (bytes_at m s n) = n"
  by (induction n arbitrary: s) simp_all

lemma range_text_nth: "s \<le> q \<Longrightarrow> q < e \<Longrightarrow> range_text m s e ! nat (q - s) = m q"
  by (simp add: range_text_def bytes_at_nth)

lemma range_text_mem: "s \<le> q \<Longrightarrow> q < e \<Longrightarrow> m q \<in> set (range_text m s e)"
proof -
  assume a: "s \<le> q" "q < e"
  then have "nat (q - s) < length (range_text m s e)" by (simp add: length_range_text)
  then have "range_text m s e ! nat (q - s) \<in> set (range_text m s e)" by (rule nth_mem)
  then show ?thesis using a by (simp add: range_text_nth)
qed

lemma bytes_at_take: "n \<le> k \<Longrightarrow> take n (bytes_at m s k) = bytes_at m s n"
proof (induction n arbitrary: s k)
  case 0
  then show ?case by simp
next
  case (Suc n)
  then obtain k' where k: "k = Suc k'" by (cases k) auto
  then show ?case using Suc by simp
qed

lemma bytes_at_drop: "drop n (bytes_at m s k) = bytes_at m (s + int n) (k - n)"
proof (induction n arbitrary: s k)
  case 0
  then show ?case by simp
next
  case (Suc n)
  show ?case
  proof (cases k)
    case 0
    then show ?thesis by simp
  next
    case (Suc k')
    then show ?thesis using Suc.IH [of "s + 1" k'] by (simp add: add.assoc)
  qed
qed

lemma range_text_take: "s + int n \<le> e \<Longrightarrow> take n (range_text m s e) = bytes_at m s n"
  by (simp add: range_text_def bytes_at_take)

lemma range_text_drop: "drop n (range_text m s e) = range_text m (s + int n) e"
proof -
  have "nat (e - s) - n = nat (e - (s + int n))" by simp
  then show ?thesis by (simp add: range_text_def bytes_at_drop)
qed

lemma range_text_append:
  "s \<le> p \<Longrightarrow> p \<le> e \<Longrightarrow> range_text m s e = range_text m s p @ range_text m p e"
proof -
  assume a: "s \<le> p" "p \<le> e"
  have "range_text m s e = take (nat (p - s)) (range_text m s e) @ drop (nat (p - s)) (range_text m s e)"
    by simp
  also have "take (nat (p - s)) (range_text m s e) = range_text m s p"
    using a by (simp add: range_text_take) (simp add: range_text_def)
  also have "drop (nat (p - s)) (range_text m s e) = range_text m p e"
    using a by (simp add: range_text_drop)
  finally show ?thesis .
qed

lemma range_text_nonempty: "range_text m s e \<noteq> [] \<longleftrightarrow> s < e"
proof -
  have "length (range_text m s e) = nat (e - s)" by (rule length_range_text)
  then show ?thesis by (cases "s < e") (auto simp: range_text_empty)
qed

text \<open>A comparison with a keyword does not reach past a byte that is not a letter.\<close>

lemma strncmp_eq_bound:
  assumes "strncmp_eq m s kw" and "\<forall>c\<in>set kw. is_ident_char c"
    and "s \<le> q" and "\<not> is_ident_char (m q)"
  shows "s + int (length kw) \<le> q"
proof (rule ccontr)
  assume "\<not> s + int (length kw) \<le> q"
  then have i: "nat (q - s) < length kw" using assms(3) by simp
  then have "bytes_at m s (length kw) ! nat (q - s) = m q"
    using assms(3) by (simp add: bytes_at_nth)
  then have "kw ! nat (q - s) = m q" using assms(1) by (simp add: strncmp_eq_def)
  moreover have "kw ! nat (q - s) \<in> set kw" using i by (rule nth_mem)
  ultimately show False using assms(2,4) by auto
qed

lemma strncmp_eq_starts_with:
  "s + int (length kw) \<le> e \<Longrightarrow> strncmp_eq m s kw = starts_with kw (range_text m s e)"
  by (simp add: strncmp_eq_def starts_with_def range_text_take)


lemma trimSpace_loop_lower:
  "s0 \<le> s \<Longrightarrow> s \<le> p \<Longrightarrow> \<not> isspace (m s) \<Longrightarrow> trimSpace_loop m p s0 = trimSpace_loop m p s"
proof (induction m p s rule: trimSpace_loop.induct)
  case (1 m p s)
  show ?case
  proof (cases "p > s \<and> isspace (m p)")
    case True
    then have "trimSpace_loop m p s = trimSpace_loop m (p - 1) s"
      "trimSpace_loop m p s0 = trimSpace_loop m (p - 1) s0"
      using "1.prems" by (simp_all add: trimSpace_loop_go)
    then show ?thesis using "1.IH" [OF True] "1.prems" True by simp
  next
    case False
    then have "\<not> isspace (m p)" using "1.prems" by (cases "p = s") auto
    then show ?thesis by (simp add: trimSpace_loop_stop)
  qed
qed

lemma trimSpace_loop_le: "trimSpace_loop m p s \<le> p"
proof (induction m p s rule: trimSpace_loop.induct)
  case (1 m p s)
  show ?case
  proof (cases "p > s \<and> isspace (m p)")
    case True
    then show ?thesis using "1.IH" [OF True] by (simp add: trimSpace_loop_go)
  next
    case False
    then show ?thesis by (simp add: trimSpace_loop_stop)
  qed
qed

lemma trimSpace_loop_after:
  "trimSpace_loop m p s < p \<Longrightarrow> isspace (m (trimSpace_loop m p s + 1))"
proof (induction m p s rule: trimSpace_loop.induct)
  case (1 m p s)
  show ?case
  proof (cases "p > s \<and> isspace (m p)")
    case True
    then have eq: "trimSpace_loop m p s = trimSpace_loop m (p - 1) s"
      by (simp add: trimSpace_loop_go)
    show ?thesis
    proof (cases "trimSpace_loop m (p - 1) s < p - 1")
      case True
      then show ?thesis using "1.IH" [OF \<open>p > s \<and> isspace (m p)\<close>] eq by simp
    next
      case False
      moreover have "trimSpace_loop m (p - 1) s \<le> p - 1" by (rule trimSpace_loop_le)
      ultimately have "trimSpace_loop m (p - 1) s = p - 1" by simp
      then show ?thesis using True eq by simp
    qed
  next
    case False
    then have "trimSpace_loop m p s = p" by (simp add: trimSpace_loop_stop)
    then show ?thesis using "1.prems" by simp
  qed
qed

lemma trimSpace_loop_stops:
  "s \<le> p \<Longrightarrow> \<not> isspace (m s) \<Longrightarrow> \<not> isspace (m (trimSpace_loop m p s))"
proof (induction m p s rule: trimSpace_loop.induct)
  case (1 m p s)
  show ?case
  proof (cases "p > s \<and> isspace (m p)")
    case True
    then show ?thesis using "1.IH" [OF True] "1.prems" by (simp add: trimSpace_loop_go)
  next
    case False
    then have "\<not> isspace (m p)" using "1.prems" by (cases "p = s") auto
    then show ?thesis by (simp add: trimSpace_loop_stop)
  qed
qed

text \<open>The two trims at the head of \<open>processTyped\<close>, for a text that is not blank.\<close>

lemma typed_trim:
  assumes "trimmed (range_text m nstart nend) \<noteq> []"
  defines "s \<equiv> skipSpace m nstart nend" and "e \<equiv> trimSpace m nend nstart"
  shows "range_text m s e = trimmed (range_text m nstart nend)"
    and "nstart \<le> s" and "s < e" and "e \<le> nend" and "e < nend \<longrightarrow> isspace (m e)"
proof -
  have le: "nstart \<le> nend"
    using assms(1) by (cases "nstart \<le> nend") (auto simp: range_text_empty trimmed_def)
  have b: "nstart \<le> s" "s \<le> nend" using skipSpace_bounds [OF le] by (simp_all add: s_def)
  have r: "range_text m s nend = dropWhile isspace (range_text m nstart nend)"
    by (simp add: s_def skipSpace_range)
  have "range_text m s nend \<noteq> []"
  proof
    assume "range_text m s nend = []"
    then have "dropWhile isspace (range_text m nstart nend) = []" by (simp add: r)
    then have "trimmed (range_text m nstart nend) = []" by (simp only: trimmed_def) simp
    then show False using assms(1) by simp
  qed
  then have lt: "s < nend" by (simp add: range_text_nonempty)
  then have n: "\<not> isspace (m s)" using skipSpace_stops [of m nstart nend] by (simp add: s_def)
  have "trimSpace_loop m (nend - 1) nstart = trimSpace_loop m (nend - 1) s"
    using b(1) lt n by (intro trimSpace_loop_lower) simp_all
  then have e: "e = trimSpace m nend s" by (simp add: e_def trimSpace_def)
  have n': "s < nend \<longrightarrow> \<not> isspace (m s)" using n by simp
  have tr: "range_text m s (trimSpace m nend s) = rev (dropWhile isspace (rev (range_text m s nend)))"
    "trimSpace m nend s \<le> nend"
    using trimSpace_range(1,3) [of s nend m] b(2) n' by simp_all
  show t: "range_text m s e = trimmed (range_text m nstart nend)"
    using tr(1) by (simp add: e r trimmed_def)
  show "nstart \<le> s" by (rule b(1))
  show "s < e" using t assms(1) range_text_nonempty [of m s e] by simp
  show "e \<le> nend" using tr(2) by (simp add: e)
  show "e < nend \<longrightarrow> isspace (m e)"
    using trimSpace_loop_after [of m "nend - 1" nstart] by (simp add: e_def trimSpace_def)
qed

lemma find_bracket_go:
  "e - 1 \<ge> s \<Longrightarrow> m (e - 1) \<noteq> CHR ''['' \<Longrightarrow> find_bracket m e s = find_bracket m (e - 1) s"
  by (subst find_bracket.simps) (simp add: Let_def)

lemma find_bracket_stop:
  "\<not> (e - 1 \<ge> s \<and> m (e - 1) \<noteq> CHR ''['') \<Longrightarrow> find_bracket m e s = e - 1"
  by (subst find_bracket.simps) (auto simp: Let_def)

lemma find_bracket_range:
  "CHR ''['' \<in> set (range_text m s q) \<Longrightarrow>
   range_text m s (find_bracket m q s)
     = rev (tl (dropWhile (\<lambda>c. c \<noteq> CHR ''['') (rev (range_text m s q))))
   \<and> s \<le> find_bracket m q s \<and> find_bracket m q s < q \<and> m (find_bracket m q s) = CHR ''[''"
proof (induction m q s rule: find_bracket.induct)
  case (1 m q s)
  have lt: "s < q" using "1.prems" range_text_nonempty [of m s q] by auto
  then have snoc: "range_text m s q = range_text m s (q - 1) @ [m (q - 1)]"
    using range_text_snoc [of s "q - 1" m] by simp
  show ?case
  proof (cases "m (q - 1) = CHR ''[''")
    case True
    then have "find_bracket m q s = q - 1" by (simp add: find_bracket_stop)
    then show ?thesis using True lt by (simp add: snoc)
  next
    case False
    then have eq: "find_bracket m q s = find_bracket m (q - 1) s"
      using lt by (simp add: find_bracket_go)
    have "CHR ''['' \<in> set (range_text m s (q - 1))" using "1.prems" False by (simp add: snoc)
    from "1.IH" [OF refl _ this] False lt show ?thesis by (simp add: eq snoc)
  qed
qed

lemma scan_name_go:
  "p \<ge> s \<Longrightarrow> is_ident_char (m p) \<Longrightarrow> scan_name m p s = scan_name m (p - 1) s"
  by (subst scan_name.simps) (simp add: is_ident_char_def)

lemma scan_name_stop: "\<not> (p \<ge> s \<and> is_ident_char (m p)) \<Longrightarrow> scan_name m p s = p"
  by (subst scan_name.simps) (auto simp: is_ident_char_def)

lemma scan_name_range:
  "s - 1 \<le> p \<Longrightarrow>
   range_text m (scan_name m p s + 1) (p + 1) = trailing_identifier (range_text m s (p + 1))
   \<and> range_text m s (scan_name m p s + 1) = before_identifier (range_text m s (p + 1))
   \<and> s - 1 \<le> scan_name m p s \<and> scan_name m p s \<le> p"
proof (induction m p s rule: scan_name.induct)
  case (1 m p s)
  show ?case
  proof (cases "p \<ge> s")
    case True
    then have snoc: "range_text m s (p + 1) = range_text m s p @ [m p]"
      by (rule range_text_snoc)
    show ?thesis
    proof (cases "is_ident_char (m p)")
      case True
      then have eq: "scan_name m p s = scan_name m (p - 1) s"
        using \<open>p \<ge> s\<close> by (simp add: scan_name_go)
      have c: "p \<ge> s \<and> (isalnum (m p) \<or> m p = CHR ''_'')"
        using True \<open>p \<ge> s\<close> by (simp add: is_ident_char_def)
      have pre: "s - 1 \<le> p - 1" using \<open>p \<ge> s\<close> by simp
      note ih = "1.IH" [OF c pre]
      then have le: "scan_name m (p - 1) s + 1 \<le> p" by simp
      have "range_text m (scan_name m (p - 1) s + 1) (p + 1)
          = range_text m (scan_name m (p - 1) s + 1) p @ [m p]"
        using le by (rule range_text_snoc)
      then show ?thesis
        using ih True by (simp add: eq snoc trailing_identifier_def before_identifier_def)
    next
      case False
      then have eq: "scan_name m p s = p" by (simp add: scan_name_stop)
      show ?thesis
        using False \<open>p \<ge> s\<close>
        by (simp add: eq snoc trailing_identifier_def before_identifier_def range_text_empty)
    qed
  next
    case False
    then have eq: "scan_name m p s = p" by (simp add: scan_name_stop)
    have "p = s - 1" using False "1.prems" by simp
    moreover have "scan_name m (s - 1) s = s - 1" by (simp add: scan_name_stop)
    ultimately show ?thesis
      by (simp add: trailing_identifier_def before_identifier_def range_text_empty)
  qed
qed


lemma trimSpace_loop_ge: "s \<le> p \<Longrightarrow> s \<le> trimSpace_loop m p s"
proof (induction m p s rule: trimSpace_loop.induct)
  case (1 m p s)
  show ?case
  proof (cases "p > s \<and> isspace (m p)")
    case True
    then show ?thesis using "1.IH" [OF True] by (simp add: trimSpace_loop_go)
  next
    case False
    then show ?thesis using "1.prems" by (simp add: trimSpace_loop_stop)
  qed
qed

lemma back_space_loop: "back_space m e s = trimSpace_loop m e s"
proof (induction m e s rule: back_space.induct)
  case (1 m e s)
  show ?case
  proof (cases "e > s \<and> isspace (m e)")
    case True
    then have "back_space m e s = back_space m (e - 1) s" by (subst back_space.simps) simp
    then show ?thesis using "1.IH" [OF True] True by (simp add: trimSpace_loop_go)
  next
    case False
    then have "back_space m e s = e" by (subst back_space.simps) auto
    then show ?thesis using False by (simp add: trimSpace_loop_stop)
  qed
qed

lemma count_stars_go:
  "e > s \<Longrightarrow> m e = CHR ''*'' \<Longrightarrow>
   count_stars m e s n = count_stars m (trimSpace_loop m (e - 1) s) s (n + 1)"
  by (subst count_stars.simps) (simp add: back_space_loop)

lemma count_stars_stop: "\<not> (e > s \<and> m e = CHR ''*'') \<Longrightarrow> count_stars m e s n = (e, n)"
  by (subst count_stars.simps) auto

lemma stars_rev_star:
  "stars_rev (CHR ''*'' # cs) = (case stars_rev (dropWhile isspace cs) of (b, k) \<Rightarrow> (b, Suc k))"
  by (subst stars_rev.simps) simp

lemma stars_rev_other: "c \<noteq> CHR ''*'' \<Longrightarrow> stars_rev (c # cs) = (c # cs, 0)"
  by (subst stars_rev.simps) simp

lemma stars_rev_Nil: "stars_rev [] = ([], 0)"
  by (subst stars_rev.simps) simp

lemma count_stars_range:
  "s \<le> q \<Longrightarrow> \<not> isspace (m s) \<Longrightarrow> m s \<noteq> CHR ''*'' \<Longrightarrow>
   stars_rev (rev (range_text m s (q + 1))) = (b, k) \<Longrightarrow>
   \<exists>q'. count_stars m q s n = (q', n + int k) \<and> s \<le> q' \<and> q' \<le> q
        \<and> rev (range_text m s (q' + 1)) = b"
proof (induction m q s n arbitrary: b k rule: count_stars.induct)
  case (1 m q s n)
  have snoc: "range_text m s (q + 1) = range_text m s q @ [m q]"
    using "1.prems"(1) by (rule range_text_snoc)
  show ?case
  proof (cases "q > s \<and> m q = CHR ''*''")
    case True
    define q2 where "q2 = trimSpace_loop m (q - 1) s"
    have pre: "s - 1 \<le> q - 1" "s \<le> q - 1 \<longrightarrow> \<not> isspace (m s)"
      using True "1.prems" by simp_all
    have r: "range_text m s (q2 + 1) = rev (dropWhile isspace (rev (range_text m s q)))"
      and le: "q2 \<le> q - 1"
      using trimSpace_loop_range [of s "q - 1" m] pre by (simp_all add: q2_def)
    have ge: "s \<le> q2" using True by (simp add: q2_def trimSpace_loop_ge)
    obtain b' k' where st: "stars_rev (dropWhile isspace (rev (range_text m s q))) = (b', k')"
      by (cases "stars_rev (dropWhile isspace (rev (range_text m s q)))") auto
    have bk: "b = b'" "k = Suc k'"
      using "1.prems"(4) True st by (simp_all add: snoc stars_rev_star)
    have st2: "stars_rev (rev (range_text m s (q2 + 1))) = (b', k')"
      using st by (simp add: r)
    have q2b: "q2 = back_space m (q - 1) s" by (simp add: q2_def back_space_loop)
    from "1.IH" [OF True, folded q2b, OF ge "1.prems"(2,3) st2]
    obtain q' where q': "count_stars m q2 s (n + 1) = (q', n + 1 + int k')" "s \<le> q'" "q' \<le> q2"
      "rev (range_text m s (q' + 1)) = b'"
      by blast
    have "count_stars m q s n = count_stars m q2 s (n + 1)"
      using True by (simp add: count_stars_go q2_def)
    then show ?thesis using q' le bk by auto
  next
    case False
    then have "m q \<noteq> CHR ''*''" using "1.prems" by (cases "q = s") auto
    then have "b = rev (range_text m s (q + 1))" "k = 0"
      using "1.prems"(4) by (simp_all add: snoc stars_rev_other)
    moreover have "count_stars m q s n = (q, n)" using False by (simp add: count_stars_stop)
    ultimately show ?thesis using "1.prems"(1) by simp
  qed
qed

text \<open>The trailing stars, for a text that is empty or begins with neither a space nor a star.\<close>

lemma typed_stars:
  assumes "s1 \<le> p" and "s1 < p \<longrightarrow> \<not> isspace (m s1) \<and> m s1 \<noteq> CHR ''*''"
    and "strip_stars (range_text m s1 p) = (base, depth)"
  shows "\<exists>e4. count_stars m (trimSpace m p s1 - 1) s1 0 = (e4, int depth)
      \<and> range_text m s1 (e4 + 1) = base \<and> s1 \<le> e4 + 1 \<and> e4 + 1 \<le> p"
proof (cases "s1 < p")
  case False
  then have eq: "s1 = p" using assms(1) by simp
  have "trimSpace_loop m (p - 1) p = p - 1" by (simp add: trimSpace_loop_stop)
  then have "count_stars m (trimSpace m p s1 - 1) s1 0 = (p - 1, 0)"
    by (simp add: eq trimSpace_def count_stars_stop)
  moreover have "base = []" "depth = 0"
    using assms(3) by (simp_all add: eq strip_stars_def range_text_empty stars_rev_Nil)
  ultimately show ?thesis by (simp add: eq range_text_empty)
next
  case True
  then have n: "\<not> isspace (m s1)" "m s1 \<noteq> CHR ''*''" using assms(2) by simp_all
  define e where "e = trimSpace m p s1"
  have n': "s1 < p \<longrightarrow> \<not> isspace (m s1)" using n by simp
  have r: "range_text m s1 e = rev (dropWhile isspace (rev (range_text m s1 p)))"
    and le: "e \<le> p"
    using trimSpace_range(1,3) [of s1 p m] assms(1) n' by (simp_all add: e_def)
  have "s1 \<le> trimSpace_loop m (p - 1) s1" using True by (simp add: trimSpace_loop_ge)
  then have ge: "s1 \<le> e - 1" by (simp add: e_def trimSpace_def)
  obtain b k where st: "stars_rev (dropWhile isspace (rev (range_text m s1 p))) = (b, k)"
    by (cases "stars_rev (dropWhile isspace (rev (range_text m s1 p)))") auto
  then have bk: "base = rev b" "depth = k" using assms(3) by (simp_all add: strip_stars_def)
  have "stars_rev (rev (range_text m s1 (e - 1 + 1))) = (b, k)" using st by (simp add: r)
  from count_stars_range [OF ge n this, of 0]
  obtain q' where "count_stars m (e - 1) s1 0 = (q', int k)" "s1 \<le> q'" "q' \<le> e - 1"
    "rev (range_text m s1 (q' + 1)) = b"
    by auto
  then show ?thesis using bk le by (auto simp: e_def)
qed

lemma skipSpace_shorter_gen:
  "q \<le> p \<Longrightarrow> p \<le> e \<Longrightarrow> (p < e \<longrightarrow> \<not> isspace (m p)) \<Longrightarrow> skipSpace m q e = skipSpace m q p"
proof (induction m q e rule: skipSpace.induct)
  case (1 m q e)
  show ?case
  proof (cases "q < p")
    case True
    note lt = True
    show ?thesis
    proof (cases "isspace (m q)")
      case True
      with lt "1.prems" have "skipSpace m q e = skipSpace m (q + 1) e"
        "skipSpace m q p = skipSpace m (q + 1) p"
        by (simp_all add: skipSpace_go)
      moreover have "q < e \<and> isspace (m q)" using True lt "1.prems" by simp
      ultimately show ?thesis using "1.IH" "1.prems" lt by simp
    next
      case False
      then show ?thesis by (simp add: skipSpace_stop)
    qed
  next
    case False
    then have qp: "q = p" using "1.prems" by simp
    have "skipSpace m p e = p" using "1.prems" by (intro skipSpace_stop) auto
    moreover have "skipSpace m p p = p" by (intro skipSpace_stop) simp
    ultimately show ?thesis by (simp add: qp)
  qed
qed

lemma starts_with_length: "starts_with kw xs \<Longrightarrow> length kw \<le> length xs"
  by (cases "length kw \<le> length xs") (auto simp: starts_with_def)

lemma keyword_at_starts: "keyword_at kw xs \<Longrightarrow> starts_with kw xs"
  by (simp add: keyword_at_def)

text \<open>The comparison with a keyword at the head of a type prefix that is not empty.\<close>

lemma strncmp_eq_prefix:
  assumes "s < p" and "\<not> is_ident_char (m (p - 1))" and "\<forall>c\<in>set kw. is_ident_char c"
  shows "strncmp_eq m s kw = starts_with kw (range_text m s p)"
proof
  assume c: "strncmp_eq m s kw"
  have "s + int (length kw) \<le> p - 1"
    using c assms(3) _ assms(2) by (rule strncmp_eq_bound) (use assms(1) in simp)
  then have "s + int (length kw) \<le> p" by simp
  then show "starts_with kw (range_text m s p)" using c by (simp add: strncmp_eq_starts_with)
next
  assume c: "starts_with kw (range_text m s p)"
  then have "length kw \<le> length (range_text m s p)" by (rule starts_with_length)
  then have "s + int (length kw) \<le> p" using assms(1) by (simp add: length_range_text)
  then show "strncmp_eq m s kw" using c by (simp add: strncmp_eq_starts_with)
qed

lemma strncmp_eq_name:
  assumes "strncmp_eq m p kw" and "p \<le> e3" and "\<not> is_ident_char (m e3)"
    and "\<forall>c\<in>set kw. is_ident_char c"
  shows "starts_with kw (range_text m p e3)"
proof -
  have "p + int (length kw) \<le> e3"
    using assms(1,4,2,3) by (rule strncmp_eq_bound)
  then show ?thesis using assms(1) by (simp add: strncmp_eq_starts_with)
qed

lemma typed_keywords:
  assumes "s \<le> p" and "p \<le> e3"
    and "s < p \<longrightarrow> \<not> is_ident_char (m (p - 1))"
    and "p < e3 \<longrightarrow> \<not> isspace (m p)"
    and "\<not> is_ident_char (m e3)"
    and "keywords_are_words (range_text m s p)"
    and "strip_leading_keywords (range_text m s p) st co = (rest, st', co')"
    and "rest = [] \<longrightarrow> \<not> starts_with ''static'' (range_text m p e3)
          \<and> \<not> starts_with ''const'' (range_text m p e3)"
    and "s < p \<longrightarrow> \<not> isspace (m s)"
  shows "\<exists>s1. strip_keywords m s e3 st co = Some (s1, st', co') \<and> s \<le> s1 \<and> s1 \<le> p
      \<and> range_text m s1 p = rest \<and> (s1 < p \<longrightarrow> \<not> isspace (m s1))"
  using assms(1,3,6,7,9)
proof (induction "nat (p - s)" arbitrary: s st co rule: less_induct)
  case less
  show ?case
  proof (cases "s < p")
    case False
    then have eq: "s = p" using less.prems(1) by simp
    have e: "range_text m s p = []" by (simp add: eq range_text_empty)
    have "strip_leading_keywords [] st co = ([], st, co)"
      by (subst strip_leading_keywords.simps) (simp add: keyword_at_def starts_with_def)
    then have r: "rest = []" "st' = st" "co' = co" using less.prems(4) by (simp_all add: e)
    have "\<not> strncmp_eq m p kw"
      if "\<not> starts_with kw (range_text m p e3)" "\<forall>c\<in>set kw. is_ident_char c" for kw
      using strncmp_eq_name [of m p kw e3] assms(2,5) that by blast
    then have "\<not> strncmp_eq m s ''static''" "\<not> strncmp_eq m s ''const''"
      using keyword_letters assms(8) r(1) by (simp_all add: eq)
    then have "strip_keywords m s e3 st co = Some (s, st, co)"
      by (subst strip_keywords.simps) simp
    then show ?thesis using r e by (simp add: eq)
  next
    case True
    then have ni: "\<not> is_ident_char (m (p - 1))" using less.prems(2) by simp
    have cmp: "strncmp_eq m s ''static'' = starts_with ''static'' (range_text m s p)"
      "strncmp_eq m s ''const'' = starts_with ''const'' (range_text m s p)"
      using strncmp_eq_prefix [of s p m] True ni keyword_letters by simp_all
    have step: "\<exists>s1. strip_keywords m (skipSpace m (s + int n) e3) e3 a c = Some (s1, st', co')
          \<and> s \<le> s1 \<and> s1 \<le> p \<and> range_text m s1 p = rest
          \<and> (s1 < p \<longrightarrow> \<not> isspace (m s1))"
      if sw: "starts_with kw (range_text m s p)" and n: "length kw = n" "0 < n"
        and il: "\<forall>c\<in>set kw. is_ident_char c"
        and w: "keywords_are_words (dropWhile isspace (drop n (range_text m s p)))"
        and sp: "strip_leading_keywords (dropWhile isspace (drop n (range_text m s p))) a c
                 = (rest, st', co')"
      for kw n a c
    proof -
      have "strncmp_eq m s kw" using sw strncmp_eq_prefix [of s p m kw] True ni il by simp
      then have "s + int (length kw) \<le> p - 1"
        using il _ ni by (rule strncmp_eq_bound) (use True in simp)
      then have b: "s + int n \<le> p" by (simp add: n)
      define s2 where "s2 = skipSpace m (s + int n) e3"
      have s2: "s2 = skipSpace m (s + int n) p"
        unfolding s2_def using b assms(2,4) by (rule skipSpace_shorter_gen)
      have bb: "s + int n \<le> s2" "s2 \<le> p" using skipSpace_bounds [OF b, of m] by (simp_all add: s2)
      have r: "range_text m s2 p = dropWhile isspace (drop n (range_text m s p))"
        by (simp add: s2 skipSpace_range range_text_drop)
      have "nat (p - s2) < nat (p - s)" using bb n(2) True by simp
      then have "\<exists>s1. strip_keywords m s2 e3 a c = Some (s1, st', co') \<and> s2 \<le> s1 \<and> s1 \<le> p
          \<and> range_text m s1 p = rest \<and> (s1 < p \<longrightarrow> \<not> isspace (m s1))"
      proof (rule less.hyps [OF _ bb(2)])
        show "s2 < p \<longrightarrow> \<not> isspace (m s2)"
          using skipSpace_stops [of m "s + int n" p] by (simp add: s2)
        show "s2 < p \<longrightarrow> \<not> is_ident_char (m (p - 1))" using ni by simp
        show "keywords_are_words (range_text m s2 p)" using w by (simp add: r)
        show "strip_leading_keywords (range_text m s2 p) a c = (rest, st', co')"
          using sp by (simp add: r)
      qed
      then obtain s1 where "strip_keywords m s2 e3 a c = Some (s1, st', co')" "s2 \<le> s1"
        "s1 \<le> p" "range_text m s1 p = rest" "s1 < p \<longrightarrow> \<not> isspace (m s1)"
        by blast
      then show ?thesis using bb n(2) by (auto simp: s2_def)
    qed
    show ?thesis
    proof (cases "starts_with ''static'' (range_text m s p)")
      case True
      then have k: "keyword_at ''static'' (range_text m s p)"
        and w: "keywords_are_words (dropWhile isspace (drop 6 (range_text m s p)))"
        using less.prems(3) by (subst (asm) keywords_are_words.simps, simp)+
      have sp: "strip_leading_keywords (dropWhile isspace (drop 6 (range_text m s p))) True co
          = (rest, st', co')"
        using less.prems(4) k by (subst (asm) strip_leading_keywords.simps) simp
      have "strip_keywords m s e3 st co = strip_keywords m (skipSpace m (s + 6) e3) e3 True co"
        using True cmp by (subst strip_keywords.simps) simp
      then show ?thesis
        using step [OF True _ _ keyword_letters(1), of 6 True co] w sp by simp
    next
      case False
      note ns = False
      show ?thesis
      proof (cases "starts_with ''const'' (range_text m s p)")
        case True
        then have k: "keyword_at ''const'' (range_text m s p)"
          and w: "keywords_are_words (dropWhile isspace (drop 5 (range_text m s p)))"
          using less.prems(3) ns by (subst (asm) keywords_are_words.simps, simp)+
        have nk: "\<not> keyword_at ''static'' (range_text m s p)"
          using ns keyword_at_starts by blast
        have sp: "strip_leading_keywords (dropWhile isspace (drop 5 (range_text m s p))) st True
            = (rest, st', co')"
          using less.prems(4) k nk by (subst (asm) strip_leading_keywords.simps) simp
        have "strip_keywords m s e3 st co = strip_keywords m (skipSpace m (s + 5) e3) e3 st True"
          using True ns cmp by (subst strip_keywords.simps) simp
        then show ?thesis
          using step [OF True _ _ keyword_letters(2), of 5 st True] w sp by simp
      next
        case False
        have nk: "\<not> keyword_at ''static'' (range_text m s p)"
          "\<not> keyword_at ''const'' (range_text m s p)"
          using ns False keyword_at_starts by blast+
        have "(range_text m s p, st, co) = (rest, st', co')"
          using less.prems(4) nk by (subst (asm) strip_leading_keywords.simps) simp
        moreover have "strip_keywords m s e3 st co = Some (s, st, co)"
          using ns False cmp by (subst strip_keywords.simps) simp
        ultimately show ?thesis using less.prems(1,5) by auto
      qed
    qed
  qed
qed

lemma cat_pointers_fit:
  "13 * int n \<le> r \<Longrightarrow> r < 2 ^ 64 \<Longrightarrow>
   cat_pointers n ty r = (ty @ concat (replicate n ''a pointer to ''), r - 13 * int n)"
proof (induction n arbitrary: ty r)
  case 0
  show ?case by simp
next
  case (Suc n)
  have r: "13 \<le> r" using Suc.prems by simp
  then have s: "size_t (r - 13) = r - 13" using Suc.prems by (simp add: size_t_def)
  have l: "strncat_lit ''a pointer to '' r = ''a pointer to ''"
    using r by (simp add: strncat_lit_def)
  have "cat_pointers (Suc n) ty r = cat_pointers n (ty @ ''a pointer to '') (r - 13)"
    by (simp only: cat_pointers.simps l s)
  also have "\<dots> = ((ty @ ''a pointer to '') @ concat (replicate n ''a pointer to ''),
      r - 13 - 13 * int n)"
    using Suc.prems by (intro Suc.IH) simp_all
  finally show ?case by simp
qed

lemma strncat_mem_bytes:
  "strncat_mem m s n = takeWhile (\<lambda>c. c \<noteq> NUL) (bytes_at m s (nat n))"
proof (induction m s n rule: strncat_mem.induct)
  case (1 m s n)
  show ?case
  proof (cases "n \<le> 0")
    case True
    then show ?thesis by (subst strncat_mem.simps) simp
  next
    case False
    then obtain k where k: "nat n = Suc k" by (cases "nat n") auto
    then have k': "nat (n - 1) = k" by simp
    show ?thesis
    proof (cases "m s = NUL")
      case True
      then show ?thesis by (subst strncat_mem.simps) (simp add: k)
    next
      case False
      with \<open>\<not> n \<le> 0\<close> have "strncat_mem m s n = m s # strncat_mem m (s + 1) (n - 1)"
        by (subst strncat_mem.simps) simp
      then show ?thesis using "1.IH" False \<open>\<not> n \<le> 0\<close> by (simp add: k k')
    qed
  qed
qed



lemma processTyped_eval:
  assumes "skipSpace m nstart nend = s" and "trimSpace m nend nstart = e"
    and "(m (e - 1) = CHR '']'') = arr"
    and "arr \<longrightarrow> find_bracket m (e - 1) s = e3 \<and> s < e3" and "\<not> arr \<longrightarrow> e = e3"
    and "scan_name m (e3 - 1) s + 1 = p"
    and "strip_keywords m s e3 False False = Some (s1, st, co)"
    and "count_stars m (trimSpace m p s1 - 1) s1 0 = (e4, int depth)"
    and "13 * depth + (if arr then 12 else 0) + (if co then 6 else 0) + nat (e4 + 1 - s1) < 200"
    and "s1 \<le> e4 + 1"
  shows "processTyped m type0 200 st0 io0 nstart nend =
     Some \<lparr>type_text = concat (replicate depth ''a pointer to '')
                @ (if arr then ''an array of '' else [])
                @ (if co then ''const '' else [])
                @ takeWhile (\<lambda>c. c \<noteq> NUL) (range_text m s1 (e4 + 1)),
            isStatic = st, inOnly = (co \<or> (depth = 0 \<and> \<not> arr)),
            name_start = p, name_end = e3,
            isArray = arr, isConst = co, ptrCount = int depth\<rparr>"
proof -
  have d: "13 * int depth \<le> 200" using assms(9) by simp
  have cp: "cat_pointers depth [] 200 = (concat (replicate depth ''a pointer to ''), 200 - 13 * int depth)"
    using cat_pointers_fit [OF d, of "[]"] by simp
  have b: "13 * int depth + (if arr then 12 else 0) + (if co then 6 else 0) + (e4 + 1 - s1) < 200"
    using assms(9,10) by (simp split: if_splits)
  show ?thesis
  proof (cases arr)
    case True
    note a = True
    then have f: "find_bracket m (e - 1) s = e3" "s < e3" using assms(4) by simp_all
    show ?thesis
    proof (cases co)
      case True
      then show ?thesis
        using a b assms(10) f(2)
        by (simp add: processTyped_def Let_def assms(1,2,3) f(1) assms(6,7,8) cp size_t_def
            strncat_lit_def strncat_mem_bytes range_text_def del: bytes_at.simps)
    next
      case False
      then show ?thesis
        using a b assms(10) f(2)
        by (simp add: processTyped_def Let_def assms(1,2,3) f(1) assms(6,7,8) cp size_t_def
            strncat_lit_def strncat_mem_bytes range_text_def del: bytes_at.simps)
    qed
  next
    case False
    note a = False
    then have f: "e = e3" using assms(5) by simp
    show ?thesis
    proof (cases co)
      case True
      then show ?thesis
        using a b assms(10) assms(3)
        by (simp add: processTyped_def Let_def assms(1,2) f assms(6,7,8) cp size_t_def
            strncat_lit_def strncat_mem_bytes range_text_def del: bytes_at.simps)
    next
      case False
      then show ?thesis
        using a b assms(10) assms(3)
        by (simp add: processTyped_def Let_def assms(1,2) f assms(6,7,8) cp size_t_def
            strncat_lit_def strncat_mem_bytes range_text_def del: bytes_at.simps)
    qed
  qed
qed


lemma butlast_range_text: "s < e \<Longrightarrow> butlast (range_text m s e) = range_text m s (e - 1)"
  using range_text_snoc [of s "e - 1" m] by simp

lemma tl_rev_butlast: "tl (rev t) = rev (butlast t)"
  using butlast_rev [of "rev t"] by simp

lemma before_identifier_last:
  "before_identifier u \<noteq> [] \<Longrightarrow> \<not> is_ident_char (last (before_identifier u))"
proof -
  assume "before_identifier u \<noteq> []"
  then have ne: "dropWhile is_ident_char (rev u) \<noteq> []" by (simp add: before_identifier_def)
  then have "\<not> is_ident_char (hd (dropWhile is_ident_char (rev u)))" by (rule hd_dropWhile)
  then show ?thesis using ne by (simp add: before_identifier_def last_rev)
qed

lemma trailing_identifier_letters: "c \<in> set (trailing_identifier u) \<Longrightarrow> is_ident_char c"
  by (auto simp: trailing_identifier_def dest: set_takeWhileD)

lemma classify_empty:
  "classify [] = \<lparr>phrase = [], declared_name = [], declared_static = False, input_only = True\<rparr>"
proof -
  have "strip_leading_keywords [] False False = ([], False, False)"
    by (subst strip_leading_keywords.simps) (simp add: keyword_at_def starts_with_def)
  then show ?thesis
    by (simp add: classify_def trimmed_def strip_brackets_def ends_with_bracket_def
        before_identifier_def trailing_identifier_def strip_stars_def stars_rev_Nil)
qed

text \<open>
  \<open>processTyped\<close> on a regular declarator: it returns, and the phrase, the
  two flags and the narrowed name are those of \<open>classify\<close>. The byte at the end
  of the range is not a letter (it is the parenthesis or the comma that ended
  the declarator).
\<close>

lemma processTyped_refines:
  assumes "nstart \<le> nend"
    and "regular_declarator (range_text m nstart nend)"
    and "\<not> is_ident_char (m nend)"
    and "nstart = nend \<longrightarrow> m (nstart - 1) \<noteq> CHR '']''"
  shows "\<exists>r. processTyped m type0 200 st0 io0 nstart nend = Some r
     \<and> type_text r = phrase (classify (range_text m nstart nend))
     \<and> isStatic r = declared_static (classify (range_text m nstart nend))
     \<and> inOnly r = input_only (classify (range_text m nstart nend))
     \<and> range_text m (name_start r) (name_end r) = declared_name (classify (range_text m nstart nend))
     \<and> nstart \<le> name_start r \<and> name_start r \<le> name_end r \<and> name_end r \<le> nend"
proof (cases "nstart = nend")
  case True
  have n: "\<not> strncmp_eq m nend kw" if "\<forall>c\<in>set kw. is_ident_char c" "kw \<noteq> []" for kw
  proof
    assume "strncmp_eq m nend kw"
    then have "nend + int (length kw) \<le> nend"
      using that(1) _ assms(3) by (rule strncmp_eq_bound) simp
    then show False using that(2) by simp
  qed
  have k: "strip_keywords m nend nend False False = Some (nend, False, False)"
    using n [of "''static''"] n [of "''const''"] keyword_letters
    by (subst strip_keywords.simps) simp
  have 1: "skipSpace m nend nend = nend" by (simp add: skipSpace_stop)
  have 2: "trimSpace m nend nend = nend" by (simp add: trimSpace_def trimSpace_loop_stop)
  have 3: "(m (nend - 1) = CHR '']'') = False" using assms(4) True by simp
  have 4: "scan_name m (nend - 1) nend + 1 = nend" by (simp add: scan_name_stop)
  have 5: "count_stars m (trimSpace m nend nend - 1) nend 0 = (nend - 1, int 0)"
    by (simp add: 2 count_stars_stop)
  have "processTyped m type0 200 st0 io0 nend nend =
     Some \<lparr>type_text = concat (replicate 0 ''a pointer to '')
                @ (if False then ''an array of '' else [])
                @ (if False then ''const '' else [])
                @ takeWhile (\<lambda>c. c \<noteq> NUL) (range_text m nend (nend - 1 + 1)),
            isStatic = False, inOnly = (False \<or> ((0::nat) = 0 \<and> \<not> False)),
            name_start = nend, name_end = nend,
            isArray = False, isConst = False, ptrCount = int 0\<rparr>"
    by (rule processTyped_eval [OF 1 2 3 _ _ 4 k 5]) simp_all
  then show ?thesis
    using True by (simp add: range_text_empty classify_empty)
next
  case False
  define d where "d = range_text m nstart nend"
  define t where "t = trimmed d"
  define u where "u = strip_brackets t"
  define arr where "arr = ends_with_bracket t"
  have dne: "d \<noteq> []" using False assms(1) range_text_nonempty [of m nstart nend] by (simp add: d_def)
  obtain rest st co where kw: "strip_leading_keywords (before_identifier u) False False = (rest, st, co)"
    by (cases "strip_leading_keywords (before_identifier u) False False") auto
  obtain base depth where ss: "strip_stars rest = (base, depth)"
    by (cases "strip_stars rest") auto
  have reg: "t \<noteq> []" "arr \<longrightarrow> CHR ''['' \<in> set (butlast t) \<and> u \<noteq> []"
    "keywords_are_words (before_identifier u)"
    "rest = [] \<longrightarrow> \<not> starts_with ''static'' (trailing_identifier u)
        \<and> \<not> starts_with ''const'' (trailing_identifier u)"
    "rest \<noteq> [] \<longrightarrow> hd rest \<noteq> CHR ''*''"
    "13 * depth + (if arr then 12 else 0) + (if co then 6 else 0) + length base < 200"
    using assms(2) dne kw ss
    by (simp_all add: regular_declarator_def Let_def d_def [symmetric] t_def [symmetric]
        u_def [symmetric] arr_def [symmetric])
  define s where "s = skipSpace m nstart nend"
  define e where "e = trimSpace m nend nstart"
  have tr: "range_text m s e = t" "nstart \<le> s" "s < e" "e \<le> nend" "e < nend \<longrightarrow> isspace (m e)"
    using typed_trim [of m nstart nend] reg(1) by (simp_all add: s_def e_def t_def d_def)
  have ns: "\<not> isspace (m s)"
    using skipSpace_stops [of m nstart nend] tr(3,4) by (simp add: s_def)
  have a: "(m (e - 1) = CHR '']'') = arr"
    using tr(1,3) reg(1) last_range_text [of s e m] by (auto simp: arr_def ends_with_bracket_def)
  define e3 where "e3 = (if arr then find_bracket m (e - 1) s else e)"
  have e3: "range_text m s e3 = u \<and> s \<le> e3 \<and> e3 \<le> nend \<and> \<not> is_ident_char (m e3)
      \<and> (arr \<longrightarrow> s < e3)"
  proof (cases arr)
    case True
    have bl: "range_text m s (e - 1) = butlast t"
      using tr(1,3) by (simp add: butlast_range_text [symmetric])
    then have "CHR ''['' \<in> set (range_text m s (e - 1))" using reg(2) True by simp
    from find_bracket_range [OF this]
    have f: "range_text m s e3 = rev (tl (dropWhile (\<lambda>c. c \<noteq> CHR ''['') (rev (butlast t))))"
      "s \<le> e3" "e3 < e - 1" "m e3 = CHR ''[''"
      using True by (simp_all add: e3_def bl)
    have u: "range_text m s e3 = u"
      using f(1) True by (simp add: u_def strip_brackets_def arr_def tl_rev_butlast)
    then have "range_text m s e3 \<noteq> []" using reg(2) True by simp
    then have "s < e3" by (simp add: range_text_nonempty)
    moreover have "\<not> is_ident_char (m e3)" by (simp add: f(4) is_ident_char_def isalnum_def)
    ultimately show ?thesis using u f(3) tr(4) by simp
  next
    case False
    then have eq: "e3 = e" by (simp add: e3_def)
    have "u = t" using False by (simp add: u_def strip_brackets_def arr_def)
    moreover have "\<not> is_ident_char (m e)"
      using tr(4,5) assms(3) isspace_not_ident [of "m e"] by (cases "e < nend") auto
    ultimately show ?thesis using tr False by (simp add: eq)
  qed
  have fb: "arr \<longrightarrow> find_bracket m (e - 1) s = e3 \<and> s < e3" "\<not> arr \<longrightarrow> e = e3"
    using e3 by (simp_all add: e3_def)
  define p where "p = scan_name m (e3 - 1) s + 1"
  have nm: "range_text m p e3 = trailing_identifier u" "range_text m s p = before_identifier u"
    "s \<le> p" "p \<le> e3"
    using scan_name_range [of s "e3 - 1" m] e3 by (simp_all add: p_def)
  have k1: "s < p \<longrightarrow> \<not> is_ident_char (m (p - 1))"
  proof
    assume lt: "s < p"
    then have "before_identifier u \<noteq> []" using nm(2) range_text_nonempty [of m s p] by simp
    then have "\<not> is_ident_char (last (before_identifier u))" by (rule before_identifier_last)
    then show "\<not> is_ident_char (m (p - 1))" using lt by (simp add: nm(2) [symmetric] last_range_text)
  qed
  have k2: "p < e3 \<longrightarrow> \<not> isspace (m p)"
  proof
    assume lt: "p < e3"
    have "m p \<in> set (range_text m p e3)" using lt by (intro range_text_mem) simp_all
    then have "is_ident_char (m p)" by (simp add: nm(1) trailing_identifier_letters)
    then show "\<not> isspace (m p)" using isspace_not_ident by blast
  qed
  have k3: "s < p \<longrightarrow> \<not> isspace (m s)" using ns by simp
  have "\<exists>s1. strip_keywords m s e3 False False = Some (s1, st, co) \<and> s \<le> s1 \<and> s1 \<le> p
      \<and> range_text m s1 p = rest \<and> (s1 < p \<longrightarrow> \<not> isspace (m s1))"
    using nm(3,4) k1 k2 _ _ _ _ k3
  proof (rule typed_keywords)
    show "\<not> is_ident_char (m e3)" using e3 by simp
    show "keywords_are_words (range_text m s p)" using reg(3) by (simp add: nm(2))
    show "strip_leading_keywords (range_text m s p) False False = (rest, st, co)"
      using kw by (simp add: nm(2))
    show "rest = [] \<longrightarrow> \<not> starts_with ''static'' (range_text m p e3)
        \<and> \<not> starts_with ''const'' (range_text m p e3)"
      using reg(4) by (simp add: nm(1))
  qed
  then obtain s1 where s1: "strip_keywords m s e3 False False = Some (s1, st, co)" "s \<le> s1"
    "s1 \<le> p" "range_text m s1 p = rest" "s1 < p \<longrightarrow> \<not> isspace (m s1)"
    by blast
  have st1: "s1 < p \<longrightarrow> \<not> isspace (m s1) \<and> m s1 \<noteq> CHR ''*''"
  proof
    assume lt: "s1 < p"
    then have "rest \<noteq> []" using s1(4) range_text_nonempty [of m s1 p] by simp
    then have "hd rest \<noteq> CHR ''*''" using reg(5) by simp
    then have "m s1 \<noteq> CHR ''*''" using lt by (simp add: s1(4) [symmetric] hd_range_text)
    then show "\<not> isspace (m s1) \<and> m s1 \<noteq> CHR ''*''" using s1(5) lt by simp
  qed
  have "strip_stars (range_text m s1 p) = (base, depth)" using ss by (simp add: s1(4))
  from typed_stars [OF s1(3) st1 this]
  obtain e4 where e4: "count_stars m (trimSpace m p s1 - 1) s1 0 = (e4, int depth)"
    "range_text m s1 (e4 + 1) = base" "s1 \<le> e4 + 1" "e4 + 1 \<le> p"
    by blast
  have len: "nat (e4 + 1 - s1) = length base"
    using e4(2) length_range_text [of m s1 "e4 + 1"] by simp
  have fits: "13 * depth + (if arr then 12 else 0) + (if co then 6 else 0) + nat (e4 + 1 - s1) < 200"
    using reg(6) by (simp add: len)
  have "processTyped m type0 200 st0 io0 nstart nend =
     Some \<lparr>type_text = concat (replicate depth ''a pointer to '')
                @ (if arr then ''an array of '' else [])
                @ (if co then ''const '' else [])
                @ takeWhile (\<lambda>c. c \<noteq> NUL) (range_text m s1 (e4 + 1)),
            isStatic = st, inOnly = (co \<or> (depth = 0 \<and> \<not> arr)),
            name_start = p, name_end = e3,
            isArray = arr, isConst = co, ptrCount = int depth\<rparr>"
    using s_def [symmetric] e_def [symmetric] a fb p_def [symmetric] s1(1) e4(1) fits e4(3)
    by (rule processTyped_eval)
  moreover have "classify (range_text m nstart nend) =
      \<lparr>phrase = concat (replicate depth ''a pointer to '')
                @ (if arr then ''an array of '' else [])
                @ (if co then ''const '' else [])
                @ takeWhile (\<lambda>c. c \<noteq> NUL) base,
       declared_name = trailing_identifier u, declared_static = st,
       input_only = (co \<or> (depth = 0 \<and> \<not> arr))\<rparr>"
    using kw ss
    by (simp add: classify_def Let_def d_def [symmetric] t_def [symmetric] u_def [symmetric]
        arr_def [symmetric])
  ultimately show ?thesis
    using e4(2) nm tr(2) e3 by simp
qed

subsection \<open>The direction guess\<close>

lemma file_fprintf: "\<not> exited b \<Longrightarrow> file' (fprintf b s) = file' b @ s"
  by (simp add: fprintf_def)

lemma exited_fprintf [simp]: "exited (fprintf b s) = exited b"
  by (simp add: fprintf_def)

lemma mem_fprintf: "mem (fprintf b s) = mem b"
  by (simp add: fprintf_def)

lemma input_only_classify:
  "input_only (classify d)
     = (begins_const d \<or> (pointer_depth d = 0 \<and> \<not> ends_with_bracket (trimmed d)))"
  by (simp add: classify_def Let_def begins_const_def pointer_depth_def leading_keywords_def
      split: prod.splits)




subsection \<open>Evaluations\<close>

text \<open>
  C3: the bytes \<open>processTyped\<close> writes into a \<open>type\<close> buffer of 200 bytes, the
  terminating NUL included. For the declarator \<open>int **************** f\<close> (sixteen
  stars) it writes 204 bytes: \<open>strncat\<close> appends the NUL after the \<open>remaining\<close>
  characters it was allowed, and \<open>remaining -= 13\<close> wraps below zero. For a base
  type of 200 characters it writes 201 bytes.
\<close>

theorem processTyped_overruns_type:
  "map_option (\<lambda>r. int (length (type_text r)) + 1)
     (processTyped (mem_of 1000 ''int **************** f('') [] 200 False False 1000 1022)
   = Some 204
   \<and> map_option (\<lambda>r. int (length (type_text r)) + 1)
     (processTyped (mem_of 1000 (replicate 200 (CHR ''x'') @ '' f('')) [] 200 False False 1000 1202)
   = Some 201"
  by code_simp

text \<open>
  C2: a directive \<open>#define X\<close> that ends in a backslash. After the backslash the
  machine is in preprocessor mode with no literal pending and eleven characters
  accumulated; the line feed that follows ends preprocessor mode and flushes
  the buffer. The preprocessor branch has no case for the backslash. Outside a
  directive the backslash does set the pending literal, and the line feed after
  it is consumed as that literal.
\<close>

theorem backslash_newline_ends_directive:
  "map_option (\<lambda>st. (inPreprocessor st, isLiteral st, ptr (buf st) - data (buf st), file' (buf st)))
     (run plain_options fresh_state (''#define X '' @ [CHR 0x5C]))
   = Some (True, False, 11, new_file_header)
   \<and> map_option (\<lambda>st. (inPreprocessor st, isLiteral st, ptr (buf st) - data (buf st), file' (buf st)))
     (run plain_options fresh_state (''#define X '' @ [CHR 0x5C, LF]))
   = Some (False, False, 0, new_file_header @ ''#define X '' @ [CHR 0x5C, LF])
   \<and> map_option (\<lambda>st. (inPreprocessor st, isLiteral st, ptr (buf st) - data (buf st)))
     (run plain_options fresh_state (''x = 1 +'' @ [CHR 0x5C]))
   = Some (False, True, 8)
   \<and> map_option (\<lambda>st. (inPreprocessor st, isLiteral st, ptr (buf st) - data (buf st)))
     (run plain_options fresh_state (''x = 1 +'' @ [CHR 0x5C, LF]))
   = Some (False, False, 9)"
  by code_simp

text \<open>
  C1: \<open>processFile\<close> on a file that consists of \<open>int f(){}\<close>, with the byte
  \<open>Q\<close> stored just before the buffer. With no description, \<open>processFunction\<close>
  sets the description range to \<open>function.start - 1\<close>, which lies before the
  buffer here, and the output has that byte between the generated comment and
  the function text.
\<close>

theorem processFile_emits_byte_before_buffer:
  "processFile plain_options (mem_of 999 ''Q'') 1000 4096 [] ''int f(){}''
   = Some (Returned 0 (new_file_header @ [LF] @ ''/**'' @ [LF, TAB] @ ''Brief description needed.''
       @ [LF, LF, TAB] @ ''Followed by a more complete description.'' @ [LF]
       @ [LF, TAB] @ ''@param[in] '' @ [TAB] @ '' '' @ [TAB] @ [LF]
       @ [LF, TAB] @ ''@return int'' @ [LF]
       @ [LF, TAB] @ ''@todo edit me (automatically generated by insertdox)'' @ [LF] @ ''*/''
       @ ''Q'' @ ''int f(){}''))"
  by code_simp

subsection \<open>What the rendering functions leave alone\<close>

lemma out_eraseD:
  assumes "out_erase b' = out_erase b"
  shows "mem b' = mem b" "data b' = data b" "capacity b' = capacity b" "ptr b' = ptr b"
    "function' b' = function' b" "arglist b' = arglist b" "body b' = body b"
    "description b' = description b" "fileComment b' = fileComment b" "todos b' = todos b"
    "notes' b' = notes' b" "retvals b' = retvals b" "commentStart b' = commentStart b"
    "statementStart b' = statementStart b" "heap_ok b' = heap_ok b" "exited b' = exited b"
    "faulted b' = faulted b"
proof -
  show "mem b' = mem b"
    using arg_cong [OF assms, of mem] by (simp add: out_erase_def)
  show "data b' = data b"
    using arg_cong [OF assms, of data] by (simp add: out_erase_def)
  show "capacity b' = capacity b"
    using arg_cong [OF assms, of capacity] by (simp add: out_erase_def)
  show "ptr b' = ptr b"
    using arg_cong [OF assms, of ptr] by (simp add: out_erase_def)
  show "function' b' = function' b"
    using arg_cong [OF assms, of function'] by (simp add: out_erase_def)
  show "arglist b' = arglist b"
    using arg_cong [OF assms, of arglist] by (simp add: out_erase_def)
  show "body b' = body b"
    using arg_cong [OF assms, of body] by (simp add: out_erase_def)
  show "description b' = description b"
    using arg_cong [OF assms, of description] by (simp add: out_erase_def)
  show "fileComment b' = fileComment b"
    using arg_cong [OF assms, of fileComment] by (simp add: out_erase_def)
  show "todos b' = todos b"
    using arg_cong [OF assms, of todos] by (simp add: out_erase_def)
  show "notes' b' = notes' b"
    using arg_cong [OF assms, of notes'] by (simp add: out_erase_def)
  show "retvals b' = retvals b"
    using arg_cong [OF assms, of retvals] by (simp add: out_erase_def)
  show "commentStart b' = commentStart b"
    using arg_cong [OF assms, of commentStart] by (simp add: out_erase_def)
  show "statementStart b' = statementStart b"
    using arg_cong [OF assms, of statementStart] by (simp add: out_erase_def)
  show "heap_ok b' = heap_ok b"
    using arg_cong [OF assms, of heap_ok] by (simp add: out_erase_def)
  show "exited b' = exited b"
    using arg_cong [OF assms, of exited] by (simp add: out_erase_def)
  show "faulted b' = faulted b"
    using arg_cong [OF assms, of faulted] by (simp add: out_erase_def)
qed

lemma io_eraseD:
  assumes "io_erase b' = io_erase b"
  shows "mem b' = mem b" "data b' = data b" "capacity b' = capacity b" "ptr b' = ptr b"
    "function' b' = function' b" "arglist b' = arglist b" "body b' = body b"
    "description b' = description b" "fileComment b' = fileComment b" "todos b' = todos b"
    "notes' b' = notes' b" "retvals b' = retvals b" "commentStart b' = commentStart b"
    "statementStart b' = statementStart b" "faulted b' = faulted b"
proof -
  show "mem b' = mem b"
    using arg_cong [OF assms, of mem] by (simp add: io_erase_def out_erase_def)
  show "data b' = data b"
    using arg_cong [OF assms, of data] by (simp add: io_erase_def out_erase_def)
  show "capacity b' = capacity b"
    using arg_cong [OF assms, of capacity] by (simp add: io_erase_def out_erase_def)
  show "ptr b' = ptr b"
    using arg_cong [OF assms, of ptr] by (simp add: io_erase_def out_erase_def)
  show "function' b' = function' b"
    using arg_cong [OF assms, of function'] by (simp add: io_erase_def out_erase_def)
  show "arglist b' = arglist b"
    using arg_cong [OF assms, of arglist] by (simp add: io_erase_def out_erase_def)
  show "body b' = body b"
    using arg_cong [OF assms, of body] by (simp add: io_erase_def out_erase_def)
  show "description b' = description b"
    using arg_cong [OF assms, of description] by (simp add: io_erase_def out_erase_def)
  show "fileComment b' = fileComment b"
    using arg_cong [OF assms, of fileComment] by (simp add: io_erase_def out_erase_def)
  show "todos b' = todos b"
    using arg_cong [OF assms, of todos] by (simp add: io_erase_def out_erase_def)
  show "notes' b' = notes' b"
    using arg_cong [OF assms, of notes'] by (simp add: io_erase_def out_erase_def)
  show "retvals b' = retvals b"
    using arg_cong [OF assms, of retvals] by (simp add: io_erase_def out_erase_def)
  show "commentStart b' = commentStart b"
    using arg_cong [OF assms, of commentStart] by (simp add: io_erase_def out_erase_def)
  show "statementStart b' = statementStart b"
    using arg_cong [OF assms, of statementStart] by (simp add: io_erase_def out_erase_def)
  show "faulted b' = faulted b"
    using arg_cong [OF assms, of faulted] by (simp add: io_erase_def out_erase_def)
qed

lemma desc_eraseD:
  assumes "desc_erase b' = desc_erase b"
  shows "mem b' = mem b" "data b' = data b" "capacity b' = capacity b" "ptr b' = ptr b"
    "function' b' = function' b" "arglist b' = arglist b" "body b' = body b"
    "fileComment b' = fileComment b" "todos b' = todos b" "notes' b' = notes' b"
    "retvals b' = retvals b" "commentStart b' = commentStart b"
    "statementStart b' = statementStart b" "heap_ok b' = heap_ok b" "exited b' = exited b"
    "faulted b' = faulted b"
proof -
  show "mem b' = mem b"
    using arg_cong [OF assms, of mem] by (simp add: desc_erase_def out_erase_def)
  show "data b' = data b"
    using arg_cong [OF assms, of data] by (simp add: desc_erase_def out_erase_def)
  show "capacity b' = capacity b"
    using arg_cong [OF assms, of capacity] by (simp add: desc_erase_def out_erase_def)
  show "ptr b' = ptr b"
    using arg_cong [OF assms, of ptr] by (simp add: desc_erase_def out_erase_def)
  show "function' b' = function' b"
    using arg_cong [OF assms, of function'] by (simp add: desc_erase_def out_erase_def)
  show "arglist b' = arglist b"
    using arg_cong [OF assms, of arglist] by (simp add: desc_erase_def out_erase_def)
  show "body b' = body b"
    using arg_cong [OF assms, of body] by (simp add: desc_erase_def out_erase_def)
  show "fileComment b' = fileComment b"
    using arg_cong [OF assms, of fileComment] by (simp add: desc_erase_def out_erase_def)
  show "todos b' = todos b"
    using arg_cong [OF assms, of todos] by (simp add: desc_erase_def out_erase_def)
  show "notes' b' = notes' b"
    using arg_cong [OF assms, of notes'] by (simp add: desc_erase_def out_erase_def)
  show "retvals b' = retvals b"
    using arg_cong [OF assms, of retvals] by (simp add: desc_erase_def out_erase_def)
  show "commentStart b' = commentStart b"
    using arg_cong [OF assms, of commentStart] by (simp add: desc_erase_def out_erase_def)
  show "statementStart b' = statementStart b"
    using arg_cong [OF assms, of statementStart] by (simp add: desc_erase_def out_erase_def)
  show "heap_ok b' = heap_ok b"
    using arg_cong [OF assms, of heap_ok] by (simp add: desc_erase_def out_erase_def)
  show "exited b' = exited b"
    using arg_cong [OF assms, of exited] by (simp add: desc_erase_def out_erase_def)
  show "faulted b' = faulted b"
    using arg_cong [OF assms, of faulted] by (simp add: desc_erase_def out_erase_def)
qed

lemma out_io_erase: "out_erase b' = out_erase b \<Longrightarrow> io_erase b' = io_erase b"
  by (simp add: io_erase_def)

lemma out_desc_erase: "out_erase b' = out_erase b \<Longrightarrow> desc_erase b' = desc_erase b"
  by (simp add: desc_erase_def)

lemma out_erase_fprintf [simp]: "out_erase (fprintf b s) = out_erase b"
  by (simp add: fprintf_def out_erase_def)

lemma out_erase_dumpBlock [simp]: "out_erase (dumpBlock b s e) = out_erase b"
  by (simp add: dumpBlock_def)

lemma io_erase_fprintf [simp]: "io_erase (fprintf b s) = io_erase b"
  by (simp add: io_erase_def)

lemma io_erase_dumpBlock [simp]: "io_erase (dumpBlock b s e) = io_erase b"
  by (simp add: io_erase_def)

lemma io_erase_processBoilerplate [simp]: "io_erase (processBoilerplate opts b) = io_erase b"
  by (auto simp: processBoilerplate_def Let_def fprintf_def io_erase_def out_erase_def
      split: option.splits prod.splits)

lemma io_erase_newFileComment [simp]: "io_erase (newFileComment opts b) = io_erase b"
  by (simp add: newFileComment_def Let_def)

lemma io_erase_processFileComment [simp]: "io_erase (processFileComment opts b) = io_erase b"
  by (simp add: processFileComment_def Let_def)

lemma out_erase_emit_param [simp]: "out_erase (emit_param b r) = out_erase b"
  by (simp add: emit_param_def Let_def)

lemma out_erase_arg_loop:
  "arg_loop b s p e said = Some (b', said') \<Longrightarrow> out_erase b' = out_erase b"
proof (induction b s p e said rule: arg_loop.induct)
  case (1 b s p e said)
  show ?case
  proof (cases "p < e")
    case False
    with "1.prems" show ?thesis by (subst (asm) arg_loop.simps) simp
  next
    case True
    note lt = this
    show ?thesis
    proof (cases "mem b p = CHR '','' \<or> mem b p = CHR '')''")
      case False
      with lt "1.prems" have "arg_loop b s (p + 1) e said = Some (b', said')"
        by (subst (asm) arg_loop.simps) simp
      with "1.IH"(3) [OF lt False] show ?thesis by simp
    next
      case True
      note sep = this
      from lt sep "1.prems" obtain r where
        r: "processTyped (mem b) [] 200 False False s p = Some r"
        by (subst (asm) arg_loop.simps) (auto split: option.splits)
      show ?thesis
      proof (cases "is_void_name (mem b) r")
        case True
        with lt sep r "1.prems" have "arg_loop b (p + 1) (p + 1) e said = Some (b', said')"
          by (subst (asm) arg_loop.simps) simp
        with "1.IH"(1) [OF lt sep r True] show ?thesis by simp
      next
        case False
        with lt sep r "1.prems"
        have "arg_loop (emit_param b r) (p + 1) (p + 1) e True = Some (b', said')"
          by (subst (asm) arg_loop.simps) simp
        with "1.IH"(2) [OF lt sep r False] show ?thesis by simp
      qed
    qed
  qed
qed

lemma out_erase_processArgList:
  "processArgList b = Some b' \<Longrightarrow> out_erase b' = out_erase b"
  by (auto simp: processArgList_def Let_def split: option.splits prod.splits if_splits
      dest: out_erase_arg_loop)

lemma desc_erase_processDescription [simp]:
  "desc_erase (processDescription b) = desc_erase b"
  by (simp add: processDescription_def Let_def desc_erase_def out_erase_def fprintf_def
      dumpBlock_def)

lemma out_erase_function_comment_end [simp]:
  "out_erase (function_comment_end r b) = out_erase b"
  by (simp add: function_comment_end_def Let_def)

lemma desc_erase_function_preamble:
  "function_preamble b = Some (r, b5) \<Longrightarrow> desc_erase b5 = desc_erase b"
proof -
  assume a: "function_preamble b = Some (r, b5)"
  define b1 where "b1 = (if count (description b) = 0 then
           b\<lparr>description := (description b)
                  \<lparr>start := start (function' b) - 1, end' := start (function' b) - 1\<rparr>\<rparr>
         else b)"
  define b2 where "b2 = dumpBlock b1 (data b1) (start (description b1))"
  define b3 where "b3 = fprintf b2 ([LF] @ ''/**'' @ [LF]
                           @ (if isStatic r then [TAB] @ ''@internal'' @ [LF, LF] else [])
                           @ [TAB])"
  define b4 where "b4 = processDescription b3"
  have "processArgList b4 = Some b5"
    using a unfolding function_preamble_def b1_def b2_def b3_def b4_def Let_def
    by (auto split: option.splits)
  then have "out_erase b5 = out_erase b4" by (rule out_erase_processArgList)
  then have "desc_erase b5 = desc_erase b4" by (rule out_desc_erase)
  also have "\<dots> = desc_erase b3" by (simp add: b4_def)
  also have "\<dots> = desc_erase b2" by (simp add: b3_def desc_erase_def)
  also have "\<dots> = desc_erase b1" by (simp add: b2_def desc_erase_def)
  also have "\<dots> = desc_erase b" by (simp add: b1_def desc_erase_def out_erase_def)
  finally show ?thesis .
qed

lemma function_preamble_typed:
  "function_preamble b = Some (r, b5) \<Longrightarrow>
   processTyped (mem b) [] 200 False False (start (function' b)) (end' (function' b)) = Some r"
  unfolding function_preamble_def Let_def
  by (auto simp: dumpBlock_def fprintf_def split: option.splits if_splits)

subsection \<open>The function comment\<close>

lemma dumpStringList_concat: "dumpStringList xs p = concat (map (\<lambda>x. [LF] @ p @ x) xs)"
  by (induction xs) simp_all

lemma retvals_fprintf [simp]: "retvals (fprintf b s) = retvals b"
  using out_eraseD(12) [OF out_erase_fprintf] .

lemma todos_fprintf [simp]: "todos (fprintf b s) = todos b"
  using out_eraseD(10) [OF out_erase_fprintf] .

lemma file_function_comment_end:
  assumes "\<not> exited b5"
  shows "file' (function_comment_end r b5) =
     file' b5
     @ (if type_text r = ''void'' then []
        else [LF, TAB] @ ''@return '' @ type_text r
             @ concat (map (\<lambda>v. [LF, TAB] @ ''@retval '' @ v) (retvals b5)) @ [LF])
     @ concat (map (\<lambda>t. [LF, TAB] @ ''@todo '' @ t) (todos b5))
     @ [LF, TAB] @ ''@todo edit me (automatically generated by insertdox)'' @ [LF] @ ''*/''"
  using assms
  by (simp add: function_comment_end_def Let_def file_fprintf dumpStringList_concat)

text \<open>
  C8: for a function definition that is rendered, the text written between the
  parameter lines and the todo lines is empty when the classified return-type
  phrase is exactly \<open>void\<close>; otherwise it is the return-type line, one retval
  line per mined return value, and a line feed. The theorem gives the whole
  output of \<open>processFunction\<close> from the end of the parameter lines on.
\<close>

theorem return_section_unless_void:
  assumes "function_preamble b = Some (r, b5)" and "\<not> exited b"
  shows "processTyped (mem b) [] 200 False False (start (function' b)) (end' (function' b)) = Some r
     \<and> file' (function_comment_end r b5) =
         file' b5
         @ (if type_text r = ''void'' then []
            else [LF, TAB] @ ''@return '' @ type_text r
                 @ concat (map (\<lambda>v. [LF, TAB] @ ''@retval '' @ v) (retvals b)) @ [LF])
         @ concat (map (\<lambda>t. [LF, TAB] @ ''@todo '' @ t) (todos b))
         @ [LF, TAB] @ ''@todo edit me (automatically generated by insertdox)'' @ [LF] @ ''*/''
     \<and> map_option file' (processFunction opts b) =
         Some (file' (function_comment_end r b5)
               @ (if onlyPrototypes opts
                  then range_text (mem b) (end' (description b5)) (end' (arglist b)) @ '';'' @ [LF, LF]
                  else range_text (mem b) (end' (description b5)) (ptr b)))"
proof -
  note d = desc_eraseD [OF desc_erase_function_preamble [OF assms(1)]]
  have x: "\<not> exited b5" using d assms(2) by simp
  have o: "out_erase (function_comment_end r b5) = out_erase b5" by simp
  note e = out_eraseD [OF o]
  have 1: "processTyped (mem b) [] 200 False False (start (function' b)) (end' (function' b)) = Some r"
    by (rule function_preamble_typed [OF assms(1)])
  have 2: "file' (function_comment_end r b5) =
         file' b5
         @ (if type_text r = ''void'' then []
            else [LF, TAB] @ ''@return '' @ type_text r
                 @ concat (map (\<lambda>v. [LF, TAB] @ ''@retval '' @ v) (retvals b)) @ [LF])
         @ concat (map (\<lambda>t. [LF, TAB] @ ''@todo '' @ t) (todos b))
         @ [LF, TAB] @ ''@todo edit me (automatically generated by insertdox)'' @ [LF] @ ''*/''"
    using file_function_comment_end [OF x, of r] d by simp
  have x8: "\<not> exited (function_comment_end r b5)" using e x by simp
  have 3: "map_option file' (processFunction opts b) =
         Some (file' (function_comment_end r b5)
               @ (if onlyPrototypes opts
                  then range_text (mem b) (end' (description b5)) (end' (arglist b)) @ '';'' @ [LF, LF]
                  else range_text (mem b) (end' (description b5)) (ptr b)))"
    using assms(1) x8 e d
    by (simp add: processFunction_def Let_def dumpBlock_def file_fprintf)
  from 1 2 3 show ?thesis by blast
qed

theorem return_section_unless_void_witness:
  "map_option file'
     (processFunction plain_options (accumulated_function ''void f'' ''(void)'' ''{ return; }'' [[]]))
   = Some ([LF] @ ''/**'' @ [LF, TAB] @ ''Brief description needed.'' @ [LF, LF, TAB]
       @ ''Followed by a more complete description.'' @ [LF]
       @ [LF, TAB] @ ''@todo edit me (automatically generated by insertdox)'' @ [LF] @ ''*/''
       @ [LF] @ ''void f(void){ return; }'')
   \<and> map_option file'
     (processFunction plain_options
        (accumulated_function ''int g'' ''(void)'' ''{ if (x) return 1; return 0; }'' [''0'', ''1'']))
   = Some ([LF] @ ''/**'' @ [LF, TAB] @ ''Brief description needed.'' @ [LF, LF, TAB]
       @ ''Followed by a more complete description.'' @ [LF]
       @ [LF, TAB] @ ''@return int'' @ [LF, TAB] @ ''@retval 0'' @ [LF, TAB] @ ''@retval 1'' @ [LF]
       @ [LF, TAB] @ ''@todo edit me (automatically generated by insertdox)'' @ [LF] @ ''*/''
       @ [LF] @ ''int g(void){ if (x) return 1; return 0; }'')"
proof -
  let ?B = "accumulated_function ''void f'' ''(void)'' ''{ return; }'' [[]]"
  have "function_preamble ?B \<noteq> None" by code_simp
  then obtain r b5 where p: "function_preamble ?B = Some (r, b5)" by auto
  have x: "\<not> exited ?B" by code_simp
  note t = return_section_unless_void [OF p x, of plain_options]
  have "map_option type_text
      (processTyped (mem ?B) [] 200 False False (start (function' ?B)) (end' (function' ?B)))
      = Some ''void''"
    by code_simp
  with t have v: "type_text r = ''void''" by simp
  have "map_option (\<lambda>(r, b). (file' b, end' (description b))) (function_preamble ?B)
      = Some ([LF] @ ''/**'' @ [LF, TAB] @ ''Brief description needed.'' @ [LF, LF, TAB]
              @ ''Followed by a more complete description.'' @ [LF], 1000)"
    by code_simp
  with p have f: "file' b5 = [LF] @ ''/**'' @ [LF, TAB] @ ''Brief description needed.''
      @ [LF, LF, TAB] @ ''Followed by a more complete description.'' @ [LF]"
    and d: "end' (description b5) = 1000"
    by simp_all
  have e: "todos ?B = []" "range_text (mem ?B) 1000 (ptr ?B) = [LF] @ ''void f(void){ return; }''"
    "onlyPrototypes plain_options = False"
    by code_simp+
  have 1: "map_option file' (processFunction plain_options ?B)
   = Some ([LF] @ ''/**'' @ [LF, TAB] @ ''Brief description needed.'' @ [LF, LF, TAB]
       @ ''Followed by a more complete description.'' @ [LF]
       @ [LF, TAB] @ ''@todo edit me (automatically generated by insertdox)'' @ [LF] @ ''*/''
       @ [LF] @ ''void f(void){ return; }'')"
    using t v f d e by auto
  have 2: "map_option file'
     (processFunction plain_options
        (accumulated_function ''int g'' ''(void)'' ''{ if (x) return 1; return 0; }'' [''0'', ''1'']))
   = Some ([LF] @ ''/**'' @ [LF, TAB] @ ''Brief description needed.'' @ [LF, LF, TAB]
       @ ''Followed by a more complete description.'' @ [LF]
       @ [LF, TAB] @ ''@return int'' @ [LF, TAB] @ ''@retval 0'' @ [LF, TAB] @ ''@retval 1'' @ [LF]
       @ [LF, TAB] @ ''@todo edit me (automatically generated by insertdox)'' @ [LF] @ ''*/''
       @ [LF] @ ''int g(void){ if (x) return 1; return 0; }'')"
    by code_simp
  from 1 2 show ?thesis by blast
qed

subsection \<open>Prototype-only mode\<close>

lemma appends_fprintf: "\<exists>x. file' (fprintf b s) = file' b @ x"
  by (simp add: fprintf_def)

lemma appends_emit_param: "\<exists>x. file' (emit_param b r) = file' b @ x"
  by (simp add: emit_param_def Let_def dumpBlock_def fprintf_def)

lemma appends_arg_loop:
  "arg_loop b s p e said = Some (b', said') \<Longrightarrow> \<exists>x. file' b' = file' b @ x"
proof (induction b s p e said rule: arg_loop.induct)
  case (1 b s p e said)
  show ?case
  proof (cases "p < e")
    case False
    with "1.prems" show ?thesis by (subst (asm) arg_loop.simps) simp
  next
    case True
    note lt = this
    show ?thesis
    proof (cases "mem b p = CHR '','' \<or> mem b p = CHR '')''")
      case False
      with lt "1.prems" have "arg_loop b s (p + 1) e said = Some (b', said')"
        by (subst (asm) arg_loop.simps) simp
      with "1.IH"(3) [OF lt False] show ?thesis by simp
    next
      case True
      note sep = this
      from lt sep "1.prems" obtain r where
        r: "processTyped (mem b) [] 200 False False s p = Some r"
        by (subst (asm) arg_loop.simps) (auto split: option.splits)
      show ?thesis
      proof (cases "is_void_name (mem b) r")
        case True
        with lt sep r "1.prems" have "arg_loop b (p + 1) (p + 1) e said = Some (b', said')"
          by (subst (asm) arg_loop.simps) simp
        with "1.IH"(1) [OF lt sep r True] show ?thesis by simp
      next
        case False
        with lt sep r "1.prems"
        have "arg_loop (emit_param b r) (p + 1) (p + 1) e True = Some (b', said')"
          by (subst (asm) arg_loop.simps) simp
        with "1.IH"(2) [OF lt sep r False] obtain x where
          "file' b' = file' (emit_param b r) @ x" by auto
        moreover obtain y where "file' (emit_param b r) = file' b @ y"
          using appends_emit_param by blast
        ultimately show ?thesis by simp
      qed
    qed
  qed
qed

lemma appends_processArgList:
  "processArgList b = Some b' \<Longrightarrow> \<exists>x. file' b' = file' b @ x"
proof -
  assume a: "processArgList b = Some b'"
  then obtain b1 said where l: "arg_loop b (skip_open (mem b) (start (arglist b)) (end' (arglist b)))
      (skip_open (mem b) (start (arglist b)) (end' (arglist b))) (end' (arglist b)) False
      = Some (b1, said)"
    and r: "b' = (if said then fprintf b1 [LF] else b1)"
    by (auto simp: processArgList_def Let_def split: option.splits prod.splits)
  from appends_arg_loop [OF l] obtain x where "file' b1 = file' b @ x" by blast
  moreover obtain y where "file' b' = file' b1 @ y"
    using r appends_fprintf [of b1 "[LF]"] by (cases said) auto
  ultimately show ?thesis by simp
qed

lemma appends_processDescription: "\<exists>x. file' (processDescription b) = file' b @ x"
  by (simp add: processDescription_def Let_def dumpBlock_def fprintf_def)

lemma function_preamble_output:
  assumes "function_preamble b = Some (r, b5)" and "\<not> exited b"
  shows "\<exists>x. file' b5 = file' b @ range_text (mem b) (data b) (description_start b)
            @ [LF] @ ''/**'' @ [LF] @ x"
    and "end' (description b5) = description_end b"
proof -
  define b1 where "b1 = (if count (description b) = 0 then
           b\<lparr>description := (description b)
                  \<lparr>start := start (function' b) - 1, end' := start (function' b) - 1\<rparr>\<rparr>
         else b)"
  define b2 where "b2 = dumpBlock b1 (data b1) (start (description b1))"
  define b3 where "b3 = fprintf b2 ([LF] @ ''/**'' @ [LF]
                           @ (if isStatic r then [TAB] @ ''@internal'' @ [LF, LF] else [])
                           @ [TAB])"
  define b4 where "b4 = processDescription b3"
  have typed: "processTyped (mem b2) [] 200 False False (start (function' b2)) (end' (function' b2))
      = Some r"
    using assms(1) unfolding function_preamble_def b1_def b2_def Let_def
    by (auto split: option.splits)
  have al: "processArgList b4 = Some b5"
    using assms(1) typed unfolding function_preamble_def b1_def b2_def b3_def b4_def Let_def
    by (auto split: option.splits)
  have f2: "file' b2 = file' b @ range_text (mem b) (data b) (description_start b)"
    using assms(2) by (simp add: b2_def b1_def dumpBlock_def fprintf_def description_start_def)
  have x2: "\<not> exited b2" using assms(2) by (simp add: b2_def b1_def dumpBlock_def fprintf_def)
  have f3: "file' b3 = file' b2 @ [LF] @ ''/**'' @ [LF]
      @ (if isStatic r then [TAB] @ ''@internal'' @ [LF, LF] else []) @ [TAB]"
    using x2 by (simp add: b3_def fprintf_def)
  obtain y where f4: "file' b4 = file' b3 @ y"
    unfolding b4_def using appends_processDescription by blast
  obtain z where f5: "file' b5 = file' b4 @ z"
    using appends_processArgList [OF al] by blast
  show "\<exists>x. file' b5 = file' b @ range_text (mem b) (data b) (description_start b)
            @ [LF] @ ''/**'' @ [LF] @ x"
    using f2 f3 f4 f5 by simp
  have "description b5 = description b4"
    using out_eraseD(8) [OF out_erase_processArgList [OF al]] .
  moreover have "end' (description b4) = end' (description b3)"
    by (simp add: b4_def processDescription_def Let_def dumpBlock_def fprintf_def)
  moreover have "end' (description b3) = description_end b"
    by (simp add: b3_def b2_def b1_def dumpBlock_def fprintf_def description_end_def)
  ultimately show "end' (description b5) = description_end b" by simp
qed

lemma processFunction_output:
  assumes "function_preamble b = Some (r, b5)" and "\<not> exited b"
  shows "\<exists>b'. processFunction opts b = Some b' \<and> file' b' =
         file' (function_comment_end r b5)
         @ (if onlyPrototypes opts
            then range_text (mem b) (end' (description b5)) (end' (arglist b)) @ '';'' @ [LF, LF]
            else range_text (mem b) (end' (description b5)) (ptr b))"
proof -
  note d = desc_eraseD [OF desc_erase_function_preamble [OF assms(1)]]
  have x: "\<not> exited b5" using d assms(2) by simp
  have o: "out_erase (function_comment_end r b5) = out_erase b5" by simp
  note e = out_eraseD [OF o]
  have x8: "\<not> exited (function_comment_end r b5)" using e x by simp
  show ?thesis
    using assms(1) x8 e d
    by (simp add: processFunction_def Let_def dumpBlock_def file_fprintf)
qed

lemma file_clearBuffer [simp]: "file' (clearBuffer b) = file' b"
  by (simp add: clearBuffer_def)



subsection \<open>What mining and flushing leave alone\<close>

lemma mine_eraseD:
  assumes "mine_erase b' = mine_erase b"
  shows "mem b' = mem b" "data b' = data b" "capacity b' = capacity b" "ptr b' = ptr b"
    "file' b' = file' b" "function' b' = function' b" "arglist b' = arglist b"
    "body b' = body b" "description b' = description b" "fileComment b' = fileComment b"
proof -
  show "mem b' = mem b"
    using arg_cong [OF assms, of mem] by (simp add: mine_erase_def)
  show "data b' = data b"
    using arg_cong [OF assms, of data] by (simp add: mine_erase_def)
  show "capacity b' = capacity b"
    using arg_cong [OF assms, of capacity] by (simp add: mine_erase_def)
  show "ptr b' = ptr b"
    using arg_cong [OF assms, of ptr] by (simp add: mine_erase_def)
  show "file' b' = file' b"
    using arg_cong [OF assms, of file'] by (simp add: mine_erase_def)
  show "function' b' = function' b"
    using arg_cong [OF assms, of function'] by (simp add: mine_erase_def)
  show "arglist b' = arglist b"
    using arg_cong [OF assms, of arglist] by (simp add: mine_erase_def)
  show "body b' = body b"
    using arg_cong [OF assms, of body] by (simp add: mine_erase_def)
  show "description b' = description b"
    using arg_cong [OF assms, of description] by (simp add: mine_erase_def)
  show "fileComment b' = fileComment b"
    using arg_cong [OF assms, of fileComment] by (simp add: mine_erase_def)
qed

lemma mine_erase_add_todo [simp]: "mine_erase (add_todo b s e) = mine_erase b"
  by (simp add: add_todo_def mine_erase_def split: sum.splits fault.splits prod.splits)

lemma mine_erase_add_note [simp]: "mine_erase (add_note b s e) = mine_erase b"
  by (simp add: add_note_def mine_erase_def split: sum.splits fault.splits prod.splits)

lemma mine_erase_add_retval [simp]: "mine_erase (add_retval b s e) = mine_erase b"
  by (simp add: add_retval_def mine_erase_def split: sum.splits fault.splits prod.splits)

lemma mine_erase_commentStart [simp]: "mine_erase (b\<lparr>commentStart := x\<rparr>) = mine_erase b"
  by (simp add: mine_erase_def)

lemma mine_erase_statementStart [simp]: "mine_erase (b\<lparr>statementStart := x\<rparr>) = mine_erase b"
  by (simp add: mine_erase_def)

lemma mine_erase_parseComment [simp]: "mine_erase (parseComment b) = mine_erase b"
  by (simp add: parseComment_def Let_def)

lemma mine_erase_parseStatement [simp]: "mine_erase (parseStatement b) = mine_erase b"
  by (simp add: parseStatement_def Let_def)

lemmas parseComment_fields [simp] = mine_eraseD [OF mine_erase_parseComment]
lemmas parseStatement_fields [simp] = mine_eraseD [OF mine_erase_parseStatement]

lemma io_erase_clearBuffer_desc:
  assumes "desc_erase x = desc_erase b"
  shows "io_erase (clearBuffer x) = io_erase (clearBuffer b)"
  using desc_eraseD [OF assms]
  by (intro tBuffer.equality) (simp_all add: io_erase_def out_erase_def clearBuffer_def)

lemma io_erase_clearBuffer_io:
  assumes "io_erase x = io_erase b"
  shows "io_erase (clearBuffer x) = io_erase (clearBuffer b)"
  using io_eraseD [OF assms]
  by (intro tBuffer.equality) (simp_all add: io_erase_def out_erase_def clearBuffer_def)

lemma desc_erase_processFunction:
  assumes "processFunction opts b = Some b'"
  shows "desc_erase b' = desc_erase b"
proof -
  from assms obtain r b5 where p: "function_preamble b = Some (r, b5)"
    by (auto simp: processFunction_def split: option.splits)
  have "out_erase b' = out_erase (function_comment_end r b5)"
    using assms p by (auto simp: processFunction_def Let_def)
  then have "out_erase b' = out_erase b5" by simp
  then have "desc_erase b' = desc_erase b5" by (rule out_desc_erase)
  with desc_erase_function_preamble [OF p] show ?thesis by simp
qed

lemma flushBuffer_frame:
  assumes "flushBuffer opts b = Some b'"
  shows "io_erase b' = io_erase (clearBuffer b)"
proof -
  have 1: "io_erase (clearBuffer (processFileComment opts b)) = io_erase (clearBuffer b)"
    by (rule io_erase_clearBuffer_io) simp
  have 2: "io_erase (clearBuffer (dumpBlock b (data b) (ptr b))) = io_erase (clearBuffer b)"
    by (rule io_erase_clearBuffer_io) simp
  have 3: "\<And>b1. processFunction opts b = Some b1 \<Longrightarrow>
      io_erase (clearBuffer b1) = io_erase (clearBuffer b)"
    by (rule io_erase_clearBuffer_desc) (rule desc_erase_processFunction)
  show ?thesis
    using assms 1 2 3 by (auto simp: flushBuffer_def split: if_splits option.splits)
qed

lemma flushBuffer_fields:
  assumes "flushBuffer opts b = Some b'"
  shows "mem b' = mem b" "data b' = data b" "capacity b' = capacity b" "ptr b' = data b"
    "function' b' = no_range" "arglist b' = no_range" "body b' = no_range"
    "description b' = no_range" "fileComment b' = fileComment b"
    "todos b' = []" "notes' b' = []" "retvals b' = []"
    "commentStart b' = commentStart b" "statementStart b' = statementStart b"
  using io_eraseD [OF flushBuffer_frame [OF assms]] by (simp_all add: clearBuffer_def)

subsection \<open>Invariants of the state machine\<close>

lemma flushBuffer_view:
  assumes "flushBuffer opts b = Some b'"
  shows "data b' = data b \<and> ptr b' = data b \<and> body b' = no_range
     \<and> description b' = no_range \<and> fileComment b' = fileComment b"
  using flushBuffer_fields [OF assms] by simp

lemma Inv_Mid: "Inv st \<Longrightarrow> Mid st"
  by (simp add: Inv_def Mid_def normal_mode_def)

lemma Mid_flags:
  assumes "Mid st" and "buf st' = buf st" and "doFlush st' = doFlush st"
    and "inCppComment st' = inCppComment st" and "inComment st' = inComment st"
    and "depthCurly st' = depthCurly st" and "atStart st' = atStart st"
  shows "Mid st'"
  using assms by (simp add: Mid_def)

lemma Mid_literal:
  assumes "Inv st"
  shows "Mid (literal_step st c nextc)"
  by (rule Mid_flags [OF Inv_Mid [OF assms]]) (simp_all add: literal_step_def)

lemma Mid_single_quote:
  assumes "Inv st"
  shows "Mid (single_quote_step st c)"
  by (rule Mid_flags [OF Inv_Mid [OF assms]]) (simp_all add: single_quote_step_def)

lemma Mid_double_quote:
  assumes "Inv st"
  shows "Mid (double_quote_step st c)"
  by (rule Mid_flags [OF Inv_Mid [OF assms]]) (simp_all add: double_quote_step_def)

lemma geometry_flushed:
  assumes "0 \<le> data b" and "ptr b = data b" and "body b = no_range"
    and "description b = no_range"
  shows "geometry b"
  using assms by (simp add: geometry_def no_range_def)

lemma Mid_comment:
  assumes "Inv st" and "inComment st" and "comment_step opts st c = Some st1"
  shows "Mid st1"
proof -
  note m = Inv_Mid [OF assms(1)]
  have i: "geometry (buf st)" "count (body (buf st)) = 0" "\<not> doFlush st" "\<not> atStart st"
    "depthCurly st = 0 \<longrightarrow> count (description (buf st)) = 0"
    "fileComment (buf st) \<longrightarrow> depthCurly st = 0 \<and> data (buf st) < ptr (buf st)"
    using assms(1,2) by (simp_all add: Inv_def normal_mode_def)
  let ?b = "buf st"
  show ?thesis
  proof (cases "inCppComment st")
    case cpp: True
    show ?thesis
    proof (cases "c = LF \<or> c = CR")
      case False
      with cpp assms(3) have "st1 = st" by (simp add: comment_step_def)
      with m show ?thesis by simp
    next
      case nl: True
      show ?thesis
      proof (cases "depthCurly st = 0")
        case False
        with cpp nl assms(3) have s: "st1 = st\<lparr>inCppComment := False, inComment := False,
            inPreprocessor := False, isChar1 := True, buf := parseComment ?b\<rparr>"
          by (simp add: comment_step_def Let_def)
        show ?thesis using i False by (simp add: s Mid_def geometry_def)
      next
        case d0: True
        let ?b1 = "?b\<lparr>description := set_end (description ?b) (ptr ?b)\<rparr>"
        have g1: "geometry ?b1" "count (description ?b1) = 1"
          using i(1) i(5) d0 by (simp_all add: geometry_def set_end_def)
        show ?thesis
        proof (cases "fileComment ?b")
          case False
          with cpp nl d0 assms(3) have s: "st1 = st\<lparr>inCppComment := False, inComment := False,
            inPreprocessor := False, isChar1 := True, buf := ?b1\<rparr>"
            by (simp add: comment_step_def Let_def)
          show ?thesis using i g1 False by (simp add: s Mid_def)
        next
          case True
          with cpp nl d0 assms(3) obtain b2 where f: "flushBuffer opts ?b1 = Some b2"
            and s: "st1 = st\<lparr>inCppComment := False, inComment := False,
            inPreprocessor := False, isChar1 := True, buf := b2\<lparr>fileComment := False\<rparr>\<rparr>"
            by (auto simp: comment_step_def Let_def split: option.splits)
          note v = flushBuffer_view [OF f]
          have "geometry (b2\<lparr>fileComment := False\<rparr>)"
            using v i(1) by (intro geometry_flushed) (simp_all add: geometry_def)
          then show ?thesis using i v by (simp add: s Mid_def no_range_def)
        qed
      qed
    qed
  next
    case blk: False
    show ?thesis
    proof (cases "prevc st = CHR ''*'' \<and> c = CHR ''/''")
      case False
      with blk assms(3) have "st1 = st" by (auto simp: comment_step_def)
      with m show ?thesis by simp
    next
      case fin: True
      show ?thesis
      proof (cases "depthCurly st = 0")
        case False
        with blk fin assms(3) have s: "st1 = st\<lparr>inComment := False, buf := parseComment ?b\<rparr>"
          by (simp add: comment_step_def Let_def)
        show ?thesis using i False blk by (simp add: s Mid_def geometry_def)
      next
        case d0: True
        let ?b1 = "?b\<lparr>description := set_end (description ?b) (ptr ?b + 1)\<rparr>"
        have g1: "geometry ?b1"
          using i(1) i(5) d0 by (simp_all add: geometry_def set_end_def)
        from blk fin d0 assms(3) have s: "st1 = (if fileComment ?b
            then st\<lparr>inComment := False, buf := ?b1, doFlush := True\<rparr>
            else st\<lparr>inComment := False, buf := ?b1\<rparr>)"
          by (simp add: comment_step_def Let_def)
        show ?thesis using i g1 blk d0 by (simp add: s Mid_def)
      qed
    qed
  qed
qed

lemma Mid_slash:
  assumes "Inv st" and "\<not> inComment st" and "slash_step opts st nextc = Some st1"
  shows "Mid st1"
proof -
  note m = Inv_Mid [OF assms(1)]
  have i: "geometry (buf st)" "count (body (buf st)) = 0" "\<not> doFlush st"
    "\<not> fileComment (buf st)" "\<not> inCppComment st" "atStart st \<longrightarrow> depthCurly st = 0"
    using assms(1,2) by (auto simp: Inv_def normal_mode_def)
  define st0 where "st0 = (if nextc = Some (CHR ''/'')
      then st\<lparr>inCppComment := True, inComment := True\<rparr>
      else if nextc = Some (CHR ''*'') then st\<lparr>inComment := True\<rparr> else st)"
  have b0: "buf st0 = buf st" "depthCurly st0 = depthCurly st" "doFlush st0 = doFlush st"
    "atStart st0 = atStart st" "inCppComment st0 \<longrightarrow> inComment st0"
    using i(5) by (simp_all add: st0_def)
  show ?thesis
  proof (cases "inComment st0")
    case False
    then have "st0 = st" using assms(2) by (simp add: st0_def split: if_splits)
    with False assms(3) have "st1 = st" by (simp add: slash_step_def st0_def [symmetric])
    with m show ?thesis by simp
  next
    case c: True
    show ?thesis
    proof (cases "depthCurly st = 0")
      case False
      with c assms(3) b0 have s: "st1 = st0\<lparr>buf := (buf st)\<lparr>commentStart := ptr (buf st)\<rparr>\<rparr>"
        by (simp add: slash_step_def st0_def [symmetric])
      show ?thesis using i b0 c False by (simp add: s Mid_def geometry_def)
    next
      case d0: True
      with c assms(3) b0 obtain b1 where f: "flushBuffer opts (buf st) = Some b1"
        and s: "st1 = st0\<lparr>buf := b1\<lparr>description := (description b1)\<lparr>start := ptr b1\<rparr>\<rparr>\<rparr>"
        by (auto simp: slash_step_def st0_def [symmetric] split: option.splits)
      note v = flushBuffer_view [OF f]
      have "geometry (b1\<lparr>description := (description b1)\<lparr>start := ptr b1\<rparr>\<rparr>)"
        using v i(1) by (simp add: geometry_def no_range_def)
      then show ?thesis using i v b0 c by (simp add: s Mid_def no_range_def)
    qed
  qed
qed

lemma Mid_preprocessor:
  assumes "Inv st" and "\<not> inComment st" and "inPreprocessor st"
    and "preprocessor_step opts st c nextc = Some st1"
  shows "Mid st1"
proof (cases "c = LF \<or> c = CR")
  case True
  have i: "geometry (buf st)" "count (body (buf st)) = 0" "\<not> doFlush st"
    "\<not> fileComment (buf st)" "\<not> inCppComment st" "\<not> atStart st"
    using assms(1,2,3) by (auto simp: Inv_def normal_mode_def)
  from True i(5) assms(2,4) have s: "st1 = (if depthCurly st = 0
      then st\<lparr>doFlush := True, inPreprocessor := False, isChar1 := True\<rparr>
      else st\<lparr>inPreprocessor := False, isChar1 := True\<rparr>)"
    by (auto simp: preprocessor_step_def Let_def)
  show ?thesis using i assms(2) by (simp add: s Mid_def)
next
  case False
  show ?thesis
  proof (cases "c = CHR ''/''")
    case True
    with False assms(4) have "slash_step opts st nextc = Some st1"
      by (simp add: preprocessor_step_def)
    then show ?thesis by (rule Mid_slash [OF assms(1,2)])
  next
    case slash: False
    with False assms(4) have "st1 = st" by (simp add: preprocessor_step_def)
    with Inv_Mid [OF assms(1)] show ?thesis by simp
  qed
qed

lemma Mid_plain:
  assumes "\<not> inComment st1" and "\<not> inCppComment st1" and "\<not> fileComment (buf st1)"
    and "geometry (buf st1)" and "count (body (buf st1)) \<le> 1"
    and "count (body (buf st1)) = 1 \<longrightarrow>
           doFlush st1 \<and> start (body (buf st1)) \<le> end' (body (buf st1))"
  shows "Mid st1"
  using assms by (simp add: Mid_def)

lemma Mid_normal:
  assumes "Inv st" and "\<not> inComment st"
    and "normal_step opts st c nextc = Some st1"
  shows "Mid st1"
proof (cases "c = CHR ''/''")
  case True
  with assms(3) have "slash_step opts st nextc = Some st1"
    by (simp add: normal_step_def)
  then show ?thesis by (rule Mid_slash [OF assms(1,2)])
next
  case False
  have i: "0 \<le> data (buf st)" "data (buf st) \<le> ptr (buf st)"
    "start (body (buf st)) \<le> ptr (buf st)"
    "start (description (buf st)) \<le> ptr (buf st)" "count (description (buf st)) \<le> 1"
    "count (description (buf st)) = 1 \<longrightarrow>
       start (description (buf st)) \<le> end' (description (buf st))"
    "count (body (buf st)) = 0" "\<not> doFlush st"
    "\<not> fileComment (buf st)" "\<not> inCppComment st"
    using assms(1,2) by (auto simp: Inv_def geometry_def)
  have 1: "\<not> inComment st1" "\<not> inCppComment st1" "\<not> fileComment (buf st1)"
    using assms(2,3) False i(9,10)
    by (auto simp: normal_step_def Let_def split: if_splits)
  have 2: "geometry (buf st1)"
    using assms(3) False i(1-6)
    by (auto simp: normal_step_def Let_def geometry_def set_end_def no_range_def
        split: if_splits)
  have 3: "count (body (buf st1)) \<le> 1"
    using assms(3) False i(7)
    by (auto simp: normal_step_def Let_def set_end_def split: if_splits)
  have 4: "count (body (buf st1)) = 1 \<longrightarrow>
           doFlush st1 \<and> start (body (buf st1)) \<le> end' (body (buf st1))"
    using assms(3) False i(7) i(3)
    by (auto simp: normal_step_def Let_def set_end_def split: if_splits)
  from 1 2 3 4 show ?thesis by (rule Mid_plain)
qed

lemma Mid_machine:
  assumes "Inv st" and "machine opts st c nextc = Some st1"
  shows "Mid st1"
proof (cases "isLiteral st")
  case True
  with assms(2) have "st1 = literal_step st c nextc" by (simp add: machine_def)
  with Mid_literal [OF assms(1)] show ?thesis by simp
next
  case lit: False
  show ?thesis
  proof (cases "inComment st")
    case True
    with lit assms(2) have "comment_step opts st c = Some st1" by (simp add: machine_def)
    then show ?thesis by (rule Mid_comment [OF assms(1) True])
  next
    case com: False
    show ?thesis
    proof (cases "inPreprocessor st")
      case True
      with lit com assms(2) have "preprocessor_step opts st c nextc = Some st1"
        by (simp add: machine_def)
      then show ?thesis by (rule Mid_preprocessor [OF assms(1) com True])
    next
      case pre: False
      show ?thesis
      proof (cases "inSingleQuotes st")
        case True
        with lit com pre assms(2) have "st1 = single_quote_step st c" by (simp add: machine_def)
        with Mid_single_quote [OF assms(1)] show ?thesis by simp
      next
        case sq: False
        show ?thesis
        proof (cases "inDoubleQuotes st")
          case True
          with lit com pre sq assms(2) have "st1 = double_quote_step st c"
            by (simp add: machine_def)
          with Mid_double_quote [OF assms(1)] show ?thesis by simp
        next
          case False
          with lit com pre sq assms(2) have "normal_step opts st c nextc = Some st1"
            by (simp add: machine_def)
          then show ?thesis by (rule Mid_normal [OF assms(1) com])
        qed
      qed
    qed
  qed
qed

lemmas newFileComment_fields [simp] = io_eraseD [OF io_erase_newFileComment]

lemma geometry_emit:
  "geometry b \<Longrightarrow> geometry (b\<lparr>mem := m, ptr := ptr b + 1\<rparr>)"
  by (simp add: geometry_def)

lemma Post_emit:
  assumes "Mid st1"
  shows "Post (emit_step (start_check opts st1 c) c)"
proof -
  define st2 where "st2 = start_check opts st1 c"
  have g: "geometry (buf st2)" "count (body (buf st2)) = count (body (buf st1))"
    "body (buf st2) = body (buf st1)" "description (buf st2) = description (buf st1)"
    "doFlush st2 = doFlush st1" "inCppComment st2 = inCppComment st1"
    "inComment st2 = inComment st1" "depthCurly st2 = depthCurly st1"
    "data (buf st2) \<le> ptr (buf st2)"
    using assms by (simp_all add: st2_def start_check_def Mid_def geometry_def)
  have f: "fileComment (buf st2) \<longrightarrow> depthCurly st2 = 0 \<and> (inComment st2 \<or> doFlush st2)"
    "atStart st2 \<longrightarrow> \<not> fileComment (buf st2)"
    using assms by (auto simp: st2_def start_check_def Mid_def)
  define b3 where "b3 = (buf st2)\<lparr>mem := (mem (buf st2))(ptr (buf st2) := c),
      ptr := ptr (buf st2) + 1\<rparr>"
  have s: "emit_step st2 c =
      (if ptr b3 - data b3 \<ge> capacity b3 then st2\<lparr>buf := b3, doFlush := True\<rparr>
       else st2\<lparr>buf := b3\<rparr>)"
    by (simp add: emit_step_def emitChar_def Let_def b3_def)
  have g3: "geometry b3" unfolding b3_def by (rule geometry_emit [OF g(1)])
  have v3: "data b3 < ptr b3" "body b3 = body (buf st1)" "description b3 = description (buf st1)"
    "fileComment b3 = fileComment (buf st2)"
    using g by (simp_all add: b3_def)
  show ?thesis
    unfolding st2_def [symmetric] s
    using assms g g3 v3 f by (simp add: Post_def Mid_def)
qed

lemma Inv_flush:
  assumes "Post st3" and "flush_step opts st3 = Some st4"
    and "atStart st4 \<longrightarrow> normal_mode st4"
  shows "Inv (finish_step st4 c)"
proof -
  have k: "buf (finish_step st4 c) = buf st4" "doFlush (finish_step st4 c) = doFlush st4"
    "inCppComment (finish_step st4 c) = inCppComment st4"
    "inComment (finish_step st4 c) = inComment st4"
    "depthCurly (finish_step st4 c) = depthCurly st4"
    "atStart (finish_step st4 c) = atStart st4"
    "normal_mode (finish_step st4 c) = normal_mode st4"
    by (simp_all add: finish_step_def normal_mode_def)
  show ?thesis
  proof (cases "doFlush st3")
    case False
    with assms(2) have "st4 = st3" by (simp add: flush_step_def)
    with assms(1,3) False show ?thesis
      unfolding Inv_def k by (auto simp: Post_def)
  next
    case True
    with assms(2) obtain b where f: "flushBuffer opts (buf st3) = Some b"
      and s: "st4 = st3\<lparr>doFlush := False, buf := b\<lparr>fileComment := False\<rparr>\<rparr>"
      by (auto simp: flush_step_def split: option.splits)
    note v = flushBuffer_view [OF f]
    have g: "geometry (b\<lparr>fileComment := False\<rparr>)"
      using v assms(1) by (intro geometry_flushed) (simp_all add: Post_def geometry_def)
    show ?thesis
      unfolding Inv_def k
      using assms(1,3) g v by (simp add: s Post_def no_range_def)
  qed
qed

lemma isspace_special:
  assumes "isspace c"
  shows "c \<noteq> CHR 0x5C" "c \<noteq> CHR ''/''" "c \<noteq> CHR ''#''" "c \<noteq> CHR 0x27" "c \<noteq> CHR 0x22"
    "c \<noteq> CHR ''(''" "c \<noteq> CHR '')''" "c \<noteq> CHR ''{''" "c \<noteq> CHR ''}''" "c \<noteq> CHR '';''"
  using assms by (auto simp: isspace_def)

lemma machine_whitespace:
  assumes "normal_mode st" and "isspace c"
  shows "machine opts st c nextc = Some (if c = LF \<or> c = CR then st\<lparr>isChar1 := True\<rparr> else st)"
  using assms(1) isspace_special [OF assms(2)] assms(2)
  by (simp add: machine_def normal_step_def normal_mode_def)

lemma atStart_machine:
  assumes "machine opts st c nextc = Some st1"
  shows "atStart st1 = atStart st"
  using assms
  by (auto simp: machine_def literal_step_def comment_step_def preprocessor_step_def
      slash_step_def single_quote_step_def double_quote_step_def normal_step_def Let_def
      split: if_splits option.splits)

lemma flags_after_machine:
  assumes "flush_step opts (emit_step (start_check opts st1 c) c) = Some st4"
  shows "normal_mode st4 = normal_mode st1"
    and "atStart st4 = (atStart st1 \<and> isspace c)"
proof -
  define st2 where "st2 = start_check opts st1 c"
  define st3 where "st3 = emit_step st2 c"
  have 2: "normal_mode st2 = normal_mode st1" "atStart st2 = (atStart st1 \<and> isspace c)"
    by (auto simp: st2_def start_check_def normal_mode_def)
  have 3: "normal_mode st3 = normal_mode st2" "atStart st3 = atStart st2"
    by (simp_all add: st3_def emit_step_def emitChar_def Let_def normal_mode_def)
  have 4: "normal_mode st4 = normal_mode st3" "atStart st4 = atStart st3"
    using assms unfolding st2_def [symmetric] st3_def [symmetric]
    by (auto simp: flush_step_def normal_mode_def split: if_splits option.splits)
  show "normal_mode st4 = normal_mode st1" using 2 3 4 by simp
  show "atStart st4 = (atStart st1 \<and> isspace c)" using 2 3 4 by simp
qed

lemma Inv_step:
  assumes "Inv st" and "step opts st c nextc = Some st'"
  shows "Inv st'"
proof -
  from assms(2) obtain st1 st4 where m: "machine opts st c nextc = Some st1"
    and f: "flush_step opts (emit_step (start_check opts st1 c) c) = Some st4"
    and s: "st' = finish_step st4 c"
    by (auto simp: step_def split: option.splits)
  have mid: "Mid st1" by (rule Mid_machine [OF assms(1) m])
  have post: "Post (emit_step (start_check opts st1 c) c)" by (rule Post_emit [OF mid])
  have "atStart st4 \<longrightarrow> normal_mode st4"
  proof
    assume "atStart st4"
    with flags_after_machine(2) [OF f] have a1: "atStart st1" and ws: "isspace c" by simp_all
    from a1 atStart_machine [OF m] have "atStart st" by simp
    with assms(1) have n: "normal_mode st" by (simp add: Inv_def)
    from machine_whitespace [OF n ws, of opts nextc] m
    have "st1 = (if c = LF \<or> c = CR then st\<lparr>isChar1 := True\<rparr> else st)" by simp
    with n have "normal_mode st1" by (simp add: normal_mode_def)
    with flags_after_machine(1) [OF f] show "normal_mode st4" by simp
  qed
  with Inv_flush [OF post f] s show ?thesis by simp
qed

lemma Inv_run:
  assumes "Inv st" and "run opts st input = Some st'"
  shows "Inv st'"
  using assms
proof (induction input arbitrary: st)
  case Nil
  then show ?case by simp
next
  case (Cons c cs)
  from Cons.prems(2) obtain st1 where
    s: "step opts st c (case cs of [] \<Rightarrow> None | n # _ \<Rightarrow> Some n) = Some st1"
    and r: "(if exited (buf st1) then Some st1 else run opts st1 cs) = Some st'"
    by (auto split: option.splits)
  have i1: "Inv st1" by (rule Inv_step [OF Cons.prems(1) s])
  show ?case
  proof (cases "exited (buf st1)")
    case True
    with r i1 show ?thesis by simp
  next
    case False
    with r have "run opts st1 cs = Some st'" by simp
    then show ?thesis by (rule Cons.IH [OF i1])
  qed
qed

lemma Inv_init: "0 \<le> base \<Longrightarrow> Inv (init_state (initBuffer m base cap oks))"
  by (simp add: Inv_def init_state_def initBuffer_def geometry_def no_range_def normal_mode_def)

subsection \<open>Ranges and classification at every flush\<close>

lemma ranges_ok_Inv: "Inv st \<Longrightarrow> ranges_ok (buf st)"
  by (simp add: Inv_def geometry_def ranges_ok_def)

lemma ranges_ok_Mid: "Mid st \<Longrightarrow> ranges_ok (buf st)"
  by (simp add: Mid_def geometry_def ranges_ok_def)

lemma ranges_ok_Post: "Post st \<Longrightarrow> ranges_ok (buf st)"
  by (simp add: Post_def geometry_def ranges_ok_def)

text \<open>
  C4, as amended: in every state the loop of \<open>processFile\<close> reaches (for a
  buffer at a non-negative address), both between two iterations and, within an
  iteration, after the state machine has handled the character and after the
  character has been appended, the body and description ranges have a count
  of at most 1 and, when the count is 1, \<open>start \<le> end\<close>. The function and
  arglist ranges are left out: their counts grow with every top-level
  parenthesis pair, and \<open>flushBuffer\<close> tests them against 1.
\<close>

theorem body_description_ranges:
  assumes "0 \<le> base" and "run opts (init_state (initBuffer m base cap oks)) input = Some st"
  shows "ranges_ok (buf st)
     \<and> (\<forall>c nextc st1. machine opts st c nextc = Some st1 \<longrightarrow>
           ranges_ok (buf st1) \<and> ranges_ok (buf (emit_step (start_check opts st1 c) c)))"
proof -
  have i: "Inv st" by (rule Inv_run [OF Inv_init [OF assms(1)] assms(2)])
  show ?thesis
  proof (intro conjI allI impI)
    show "ranges_ok (buf st)" by (rule ranges_ok_Inv [OF i])
  next
    fix c nextc st1
    assume m: "machine opts st c nextc = Some st1"
    have mid: "Mid st1" by (rule Mid_machine [OF i m])
    show "ranges_ok (buf st1)" by (rule ranges_ok_Mid [OF mid])
    show "ranges_ok (buf (emit_step (start_check opts st1 c) c))"
      by (rule ranges_ok_Post [OF Post_emit [OF mid]])
  qed
qed

text \<open>
  The claim C4 as stated fails on the code: on the input \<open>f()()\<close> the function
  and arglist counts both reach 2 with all five characters still accumulated
  (no flush in between), on \<open>(a\<close> the function range is captured with its
  start after its end, and inside the comment \<open>/* x\<close> the description range
  has its start set and its end still \<open>NULL\<close>.
\<close>

theorem range_counts_exceed_one:
  "map_option (\<lambda>st. (count (function' (buf st)), count (arglist (buf st)),
                      ptr (buf st) - data (buf st)))
     (run plain_options fresh_state ''f()()'') = Some (2, 2, 5)
   \<and> map_option (\<lambda>st. (start (function' (buf st)), end' (function' (buf st)),
                        count (function' (buf st))))
     (run plain_options fresh_state ''(a'') = Some (1001, 1000, 1)
   \<and> map_option (\<lambda>st. (start (description (buf st)), end' (description (buf st)),
                        count (description (buf st))))
     (run plain_options fresh_state ''/* x'') = Some (1000, 0, 0)"
  by code_simp

theorem body_description_ranges_witness:
  "ranges_ok (buf (the (run plain_options fresh_state ''f(){'')))
   \<and> count (body (buf (the (machine plain_options (the (run plain_options fresh_state ''f(){''))
                               (CHR ''}'') None)))) = 1
   \<and> ranges_ok (buf (the (machine plain_options (the (run plain_options fresh_state ''f(){''))
                               (CHR ''}'') None)))"
proof -
  let ?S = "the (run plain_options fresh_state ''f(){'')"
  let ?S1 = "the (machine plain_options ?S (CHR ''}'') None)"
  have "run plain_options fresh_state ''f(){'' \<noteq> None" by code_simp
  then have r: "run plain_options (init_state (initBuffer (\<lambda>a. NUL) 1000 4096 [])) ''f(){''
      = Some ?S"
    by (simp add: fresh_state_def)
  have "machine plain_options ?S (CHR ''}'') None \<noteq> None" by code_simp
  then have m: "machine plain_options ?S (CHR ''}'') None = Some ?S1" by simp
  have c: "count (body (buf ?S1)) = 1" by code_simp
  have b: "(0::int) \<le> 1000" by simp
  from body_description_ranges [OF b r] m c show ?thesis by blast
qed

lemma fprintf_nothing: "fprintf b [] = b"
  by (simp add: fprintf_def)

lemma flush_matches_spec:
  assumes "fileComment b \<or> count (body b) = 1 \<longrightarrow> data b < ptr b"
  shows "flushBuffer opts b = map_option clearBuffer (spec_render opts b (spec_classify b))"
proof (cases "data b < ptr b")
  case True
  then show ?thesis
    by (simp add: flushBuffer_def spec_classify_def split: option.splits)
next
  case False
  with assms have n: "\<not> fileComment b" "count (body b) \<noteq> 1" by auto
  from False have "range_text (mem b) (data b) (ptr b) = []" by (simp add: range_text_def)
  then have "dumpBlock b (data b) (ptr b) = b" by (simp add: dumpBlock_def fprintf_nothing)
  with False n show ?thesis by (simp add: flushBuffer_def spec_classify_def)
qed



end
